theory Spec2Isabelle
  imports Main "HOL-Library.Word"
begin

unbundle bit_operations_syntax

section \<open>Data model\<close>

text \<open>
  The driver \<^verbatim>\<open>chirp/drivers/retevis_ha1g.py\<close> moves a flat device image between the host
  and a Retevis HA1G/HA1UV radio. Python \<^verbatim>\<open>bytes\<close> are lists of 8-bit words, Python integers
  are \<open>int\<close>, and every exception the code can raise is a value of \<open>exn\<close>: a function
  that can raise returns \<open>exn + 'a\<close> with \<open>Inl\<close> for the exception.
\<close>

type_synonym byte = "8 word"
type_synonym bytes = "byte list"

datatype exn =
    RadioError string
  | IndexError
  | ValueError string
  | ZeroDivisionError
  | StructError
  | UnicodeEncodeError
  | OverflowError
  | OtherError string

datatype HandshakeStatuses = Normal | Wrong | PwdWrong | RadioWrong

datatype MemoryRegions =
    radioHead | radioInfo | radioVer | settingData | zoneData
  | channelData | scanData | vfoScanData | alarmData | dTMFData

text \<open>The integer value of each member of the enumeration (\<^verbatim>\<open>item.value\<close>).\<close>

fun region_value :: "MemoryRegions \<Rightarrow> int" where
  "region_value radioHead = 2"
| "region_value radioInfo = 3"
| "region_value radioVer = 4"
| "region_value settingData = 6"
| "region_value zoneData = 7"
| "region_value channelData = 8"
| "region_value scanData = 11"
| "region_value vfoScanData = 12"
| "region_value alarmData = 13"
| "region_value dTMFData = 15"

text \<open>Iterating over the enumeration (\<^verbatim>\<open>for item in MemoryRegions\<close>) follows definition order.\<close>

definition MemoryRegions_items :: "MemoryRegions list" where
  "MemoryRegions_items =
     [radioHead, radioInfo, radioVer, settingData, zoneData,
      channelData, scanData, vfoScanData, alarmData, dTMFData]"

text \<open>The dictionary \<^verbatim>\<open>MEMORY_REGIONS_RANGES\<close>: start address and length of each region.\<close>

fun MEMORY_REGIONS_RANGES :: "MemoryRegions \<Rightarrow> (int \<times> int) option" where
  "MEMORY_REGIONS_RANGES radioHead = Some (0, 14)"
| "MEMORY_REGIONS_RANGES radioInfo = Some (14, 68)"
| "MEMORY_REGIONS_RANGES radioVer = Some (82, 10)"
| "MEMORY_REGIONS_RANGES settingData = Some (92, 100)"
| "MEMORY_REGIONS_RANGES zoneData = Some (192, 3202)"
| "MEMORY_REGIONS_RANGES channelData = Some (3394, 43136)"
| "MEMORY_REGIONS_RANGES scanData = Some (46530, 3618)"
| "MEMORY_REGIONS_RANGES vfoScanData = Some (50148, 68)"
| "MEMORY_REGIONS_RANGES alarmData = Some (50244, 258)"
| "MEMORY_REGIONS_RANGES dTMFData = Some (51272, 842)"

text \<open>Class attributes of \<^verbatim>\<open>HA1G\<close>, inherited unchanged by \<^verbatim>\<open>HA1UV\<close>.\<close>

definition memsize :: nat where
  "memsize = 0xD868"

definition read_packet_len :: int where
  "read_packet_len = 1047"

definition write_page_len :: int where
  "write_page_len = 1024"

subsection \<open>Python sequence operations\<close>

text \<open>
  A slice bound is clipped to the sequence: a negative bound counts from the end and stops
  at the start, a large one stops at the end. \<open>py_slice xs i j\<close> is \<^verbatim>\<open>xs[i:j]\<close>,
  \<open>py_slice_to xs j\<close> is \<^verbatim>\<open>xs[:j]\<close>. Indexing out of range raises \<^verbatim>\<open>IndexError\<close>.
\<close>

definition slice_bound :: "nat \<Rightarrow> int \<Rightarrow> nat" where
  "slice_bound n i = (if i < 0 then nat (int n + i) else min n (nat i))"

definition py_slice :: "'a list \<Rightarrow> int \<Rightarrow> int \<Rightarrow> 'a list" where
  "py_slice xs i j =
     drop (slice_bound (length xs) i) (take (slice_bound (length xs) j) xs)"

definition py_slice_to :: "'a list \<Rightarrow> int \<Rightarrow> 'a list" where
  "py_slice_to xs j = take (slice_bound (length xs) j) xs"

definition py_index :: "'a list \<Rightarrow> nat \<Rightarrow> exn + 'a" where
  "py_index xs i = (if i < length xs then Inr (xs ! i) else Inl IndexError)"

text \<open>
  \<^verbatim>\<open>str.encode("ascii")\<close>: one byte per character, \<^verbatim>\<open>UnicodeEncodeError\<close> when a character
  is outside the 7-bit range.
\<close>

definition encode_ascii :: "string \<Rightarrow> exn + bytes" where
  "encode_ascii s =
     (if list_all (\<lambda>c. (of_char c :: nat) < 128) s
      then Inr (map (\<lambda>c. word_of_nat (of_char c)) s)
      else Inl UnicodeEncodeError)"

subsection \<open>\<^verbatim>\<open>struct.pack\<close> and \<^verbatim>\<open>struct.unpack\<close>, little-endian without alignment\<close>

text \<open>
  Format \<^verbatim>\<open>B\<close> packs an integer of 0..255 into one byte and \<^verbatim>\<open>H\<close> an integer of 0..65535
  into two bytes, low byte first; a value out of range raises \<^verbatim>\<open>struct.error\<close>. Format
  \<^verbatim>\<open>Ns\<close> packs a byte string into exactly \<open>N\<close> bytes, cut or padded with zero bytes; a
  negative count is a malformed format. The fields of one call are packed left to right.
\<close>

definition struct_pack_B :: "int \<Rightarrow> exn + bytes" where
  "struct_pack_B v = (if 0 \<le> v \<and> v \<le> 255 then Inr [word_of_int v] else Inl StructError)"

definition struct_pack_H :: "int \<Rightarrow> exn + bytes" where
  "struct_pack_H v =
     (if 0 \<le> v \<and> v \<le> 65535 then Inr [word_of_int v, word_of_int (drop_bit 8 v)]
      else Inl StructError)"

definition struct_pack_s :: "int \<Rightarrow> bytes \<Rightarrow> exn + bytes" where
  "struct_pack_s n s =
     (if n < 0 then Inl StructError
      else Inr (take (nat n) s @ replicate (nat n - length s) 0))"

fun struct_pack :: "(exn + bytes) list \<Rightarrow> exn + bytes" where
  "struct_pack [] = Inr []"
| "struct_pack (Inl e # fields) = Inl e"
| "struct_pack (Inr b # fields) =
     (case struct_pack fields of Inl e \<Rightarrow> Inl e | Inr bs \<Rightarrow> Inr (b @ bs))"

definition struct_unpack_H :: "bytes \<Rightarrow> exn + int" where
  "struct_unpack_H s =
     (case s of [lo, hi] \<Rightarrow> Inr (uint lo + 256 * uint hi) | _ \<Rightarrow> Inl StructError)"

section \<open>Checksum unit\<close>

text \<open>
  \<^verbatim>\<open>calculate_crc16\<close>: the register is a Python integer; each byte is xor-ed into it and
  the register is shifted right eight times, xor-ing \<^verbatim>\<open>0xA001\<close> whenever the bit shifted out
  is set. The result is packed with format \<^verbatim>\<open><H\<close>.
\<close>

definition crc16_shift :: "int \<Rightarrow> int" where
  "crc16_shift crc = (if crc AND 1 \<noteq> 0 then drop_bit 1 crc XOR 0xA001 else drop_bit 1 crc)"

fun crc16_bits :: "nat \<Rightarrow> int \<Rightarrow> int" where
  "crc16_bits 0 crc = crc"
| "crc16_bits (Suc n) crc = crc16_bits n (crc16_shift crc)"

fun crc16_loop :: "int \<Rightarrow> bytes \<Rightarrow> int" where
  "crc16_loop crc [] = crc"
| "crc16_loop crc (b # buf) = crc16_loop (crc16_bits 8 (crc XOR uint b)) buf"

definition calculate_crc16 :: "bytes \<Rightarrow> exn + bytes" where
  "calculate_crc16 buf = struct_pack_H (crc16_loop 0 buf)"

text \<open>
  The checksum as the specification words it: a 16-bit register, initially zero, into which
  the message is fed one bit at a time, least significant bit of each byte first; the
  register is shifted right and the reflected polynomial \<^verbatim>\<open>0xA001\<close> is xor-ed in when the
  bit shifted out differs from the message bit; no final xor.
\<close>

definition crc16_spec_bit :: "16 word \<Rightarrow> bool \<Rightarrow> 16 word" where
  "crc16_spec_bit reg m =
     (if bit reg 0 \<noteq> m then drop_bit 1 reg XOR 0xA001 else drop_bit 1 reg)"

definition bits_lsb_first :: "byte \<Rightarrow> bool list" where
  "bits_lsb_first b = map (bit b) [0..<8]"

definition crc16_spec :: "bytes \<Rightarrow> 16 word" where
  "crc16_spec buf = foldl crc16_spec_bit 0 (concat (map bits_lsb_first buf))"

section \<open>Packet codec\<close>

definition magic :: bytes where
  "magic = [0x52, 0x44, 0x54, 0x50, 0x01, 0x00, 0x00, 0x00, 0x00, 0x00, 0x00, 0x00]"

definition get_send_packet_bytes :: "int \<Rightarrow> int \<Rightarrow> int \<Rightarrow> int \<Rightarrow> bytes \<Rightarrow> exn + bytes" where
  "get_send_packet_bytes data_type packet_index data_code packet_count data_buffer =
     (let data_len = int (length data_buffer) in
      case struct_pack
             [struct_pack_s 12 magic,
              struct_pack_H (data_len + 6),
              struct_pack_B (data_type AND 0xFF),
              struct_pack_B (data_code AND 0xFF),
              struct_pack_H (packet_index AND 0xFFFF),
              struct_pack_H (packet_count AND 0xFFFF),
              struct_pack_s data_len data_buffer] of
        Inl e \<Rightarrow> Inl e
      | Inr data_part \<Rightarrow>
          (case calculate_crc16 data_part of
             Inl e \<Rightarrow> Inl e
           | Inr crc \<Rightarrow> Inr (data_part @ crc @ [0xFF])))"

definition validate_packet :: "bytes \<Rightarrow> int \<Rightarrow> exn + bool" where
  "validate_packet current_packet_Byte chunk_size =
     (let byteLen = int (length current_packet_Byte) in
      if byteLen \<le> 13 then Inr False
      else
        let packet_count = (if chunk_size > 255 then 256 else chunk_size + 1);
            data_len = (if uint (current_packet_Byte ! 12) > 6
                        then uint (current_packet_Byte ! 12) - 6 else 0)
                       + uint (current_packet_Byte ! 13) * packet_count
        in if byteLen - 17 < data_len then Inr False
           else
             let crcBytes = py_slice current_packet_Byte (- 3) (- 1) in
             case calculate_crc16 (py_slice_to current_packet_Byte (- 3)) of
               Inl e \<Rightarrow> Inl e
             | Inr crcStr \<Rightarrow> Inr (crcBytes = crcStr))"

definition get_handshake_bytes :: "string \<Rightarrow> exn + bytes" where
  "get_handshake_bytes currentModel =
     (case encode_ascii currentModel of
        Inl e \<Rightarrow> Inl e
      | Inr model_bytes \<Rightarrow>
          (let prefix = [0x00, 0x00, 0x00, 0x00, 0x01, 0x00];
               padding_len = 41 - int (length model_bytes);
               padding = replicate (nat padding_len) 0;
               data_len = int (length prefix) + int (length model_bytes) + padding_len
           in case struct_pack
                     [struct_pack_s 12 magic,
                      struct_pack_H data_len,
                      struct_pack_s 6 prefix,
                      struct_pack_s (int (length model_bytes)) model_bytes,
                      struct_pack_s padding_len padding] of
                Inl e \<Rightarrow> Inl e
              | Inr packet \<Rightarrow>
                  (case calculate_crc16 packet of
                     Inl e \<Rightarrow> Inl e
                   | Inr crc \<Rightarrow> Inr (packet @ crc @ [0xFF]))))"

section \<open>Handshake classification\<close>

definition handshake_handle_connect_event :: "string \<Rightarrow> bytes \<Rightarrow> exn + HandshakeStatuses" where
  "handshake_handle_connect_event model_str dataByte =
     (if py_slice dataByte 14 16 = [0x00, 0x01] then
        (case py_index dataByte 20 of
           Inl e \<Rightarrow> Inl e
         | Inr b20 \<Rightarrow>
             if uint b20 \<noteq> 1 then
               (let radioType = py_slice dataByte 20 (20 + int (length model_str)) in
                case encode_ascii model_str of
                  Inl e \<Rightarrow> Inl e
                | Inr model_bytes \<Rightarrow>
                    if radioType = model_bytes then Inr Normal else Inr RadioWrong)
             else Inr PwdWrong)
      else Inr Wrong)"

section \<open>The serial link and the host callbacks\<close>

text \<open>
  The serial object \<^verbatim>\<open>self.pipe\<close> and the radio behind it are the environment. A \<open>'d pipe\<close>
  gives the two methods the driver calls, over a device state \<open>'d\<close> of any type: \<open>pipe_write\<close>
  returns the new device state and \<open>Some msg\<close> when the call raises, \<open>pipe_read\<close> returns
  the new device state and either the bytes read or the message of the exception raised.
  An exception raised by the pipe is an \<open>OtherError\<close>: it is an instance of
  \<^verbatim>\<open>Exception\<close> and not of \<^verbatim>\<open>errors.RadioError\<close>.

  The \<open>'d world\<close> threaded through the driver holds the device state, the trace of what the
  driver did to its environment (every call of \<^verbatim>\<open>write\<close> with its argument, every
  \<^verbatim>\<open>read\<close> that returned with its result, every \<^verbatim>\<open>time.sleep\<close> and every call of
  \<^verbatim>\<open>status_fn\<close> with \<^verbatim>\<open>status.cur\<close>), and the field \<^verbatim>\<open>cur\<close> of the mutable
  \<^verbatim>\<open>Status\<close> object. The callback \<^verbatim>\<open>status_fn\<close> is taken to return normally, and
  logging calls are not modelled.
\<close>

datatype event = Write bytes | Read bytes | Sleep | StatusFn int

record 'd pipe =
  pipe_write :: "'d \<Rightarrow> bytes \<Rightarrow> 'd \<times> string option"
  pipe_read :: "'d \<Rightarrow> int \<Rightarrow> 'd \<times> (string + bytes)"

record 'd world =
  dev :: 'd
  trace :: "event list"
  status_cur :: int

definition serial_write :: "'d pipe \<Rightarrow> bytes \<Rightarrow> 'd world \<Rightarrow> (exn + unit) \<times> 'd world" where
  "serial_write p data w =
     (case pipe_write p (dev w) data of
        (d, None) \<Rightarrow> (Inr (), w\<lparr>dev := d, trace := trace w @ [Write data]\<rparr>)
      | (d, Some msg) \<Rightarrow> (Inl (OtherError msg), w\<lparr>dev := d, trace := trace w @ [Write data]\<rparr>))"

definition serial_read :: "'d pipe \<Rightarrow> int \<Rightarrow> 'd world \<Rightarrow> (exn + bytes) \<times> 'd world" where
  "serial_read p count w =
     (case pipe_read p (dev w) count of
        (d, Inl msg) \<Rightarrow> (Inl (OtherError msg), w\<lparr>dev := d\<rparr>)
      | (d, Inr new_bytes) \<Rightarrow> (Inr new_bytes, w\<lparr>dev := d, trace := trace w @ [Read new_bytes]\<rparr>))"

definition time_sleep :: "'d world \<Rightarrow> 'd world" where
  "time_sleep w = w\<lparr>trace := trace w @ [Sleep]\<rparr>"

text \<open>\<^verbatim>\<open>status.cur += n; self.status_fn(status)\<close>\<close>

definition status_add :: "int \<Rightarrow> 'd world \<Rightarrow> 'd world" where
  "status_add n w = w\<lparr>trace := trace w @ [StatusFn (status_cur w + n)], status_cur := status_cur w + n\<rparr>"

definition exchange_block_with_radio ::
    "'d pipe \<Rightarrow> bytes \<Rightarrow> int \<Rightarrow> 'd world \<Rightarrow> (exn + bool \<times> bytes) \<times> 'd world" where
  "exchange_block_with_radio p send_byte chunk_size w =
     (case serial_write p send_byte w of
        (Inl e, w1) \<Rightarrow> (Inl e, w1)
      | (Inr u, w1) \<Rightarrow>
          (case serial_read p chunk_size w1 of
             (Inl e, w2) \<Rightarrow> (Inl e, w2)
           | (Inr new_bytes, w2) \<Rightarrow>
               (case validate_packet new_bytes 1024 of
                  Inl e \<Rightarrow> (Inl e, w2)
                | Inr flag \<Rightarrow> (Inr (flag, new_bytes), w2))))"

section \<open>Handshake negotiator\<close>

text \<open>
  \<^verbatim>\<open>for num in range(15)\<close>: the counter is the number of iterations left, \<open>databytes\<close> the
  value of the variable on entry to the iteration.
\<close>

fun handshake_loop :: "string \<Rightarrow> 'd pipe \<Rightarrow> nat \<Rightarrow> bytes \<Rightarrow> 'd world \<Rightarrow> (exn + bytes) \<times> 'd world" where
  "handshake_loop model_str p 0 databytes w = (Inr databytes, w)"
| "handshake_loop model_str p (Suc n) databytes w =
     (case get_handshake_bytes (model_str @ '' '') of
        Inl e \<Rightarrow> (Inl e, w)
      | Inr hello \<Rightarrow>
          (case exchange_block_with_radio p hello read_packet_len w of
             (Inl e, w1) \<Rightarrow> (Inl e, w1)
           | (Inr (flag, new_bytes), w1) \<Rightarrow>
               if flag then (Inr new_bytes, time_sleep w1)
               else handshake_loop model_str p n new_bytes (time_sleep w1)))"

definition handshake :: "string \<Rightarrow> 'd pipe \<Rightarrow> 'd world \<Rightarrow> (exn + HandshakeStatuses) \<times> 'd world" where
  "handshake model_str p w =
     (case handshake_loop model_str p 15 [] w of
        (Inl e, w1) \<Rightarrow> (Inl e, w1)
      | (Inr databytes, w1) \<Rightarrow> (handshake_handle_connect_event model_str databytes, w1))"

section \<open>Region transfer engine\<close>

text \<open>\<^verbatim>\<open>packet_index.to_bytes(2, "little")\<close>\<close>

definition to_bytes_2_little :: "int \<Rightarrow> exn + bytes" where
  "to_bytes_2_little v =
     (if 0 \<le> v \<and> v \<le> 65535 then Inr [word_of_int v, word_of_int (drop_bit 8 v)]
      else Inl OverflowError)"

text \<open>
  The \<^verbatim>\<open>while\<close> loop of \<^verbatim>\<open>get_read_current_packet_bytes\<close>, with its variables as
  arguments. The packet count is read from the first response only, so the loop runs at
  most 65535 times.
\<close>

function read_packets_loop ::
    "'d pipe \<Rightarrow> int \<Rightarrow> nat \<Rightarrow> int \<Rightarrow> bytes \<Rightarrow> 'd world \<Rightarrow> (exn + bytes) \<times> 'd world" where
  "read_packets_loop p item packet_index packet_count item_bytes w =
     (if int packet_index < packet_count then
        (case to_bytes_2_little (int packet_index) of
           Inl e \<Rightarrow> (Inl e, w)
         | Inr index_bytes \<Rightarrow>
        (case get_send_packet_bytes item 0 2 1 index_bytes of
           Inl e \<Rightarrow> (Inl e, w)
         | Inr request \<Rightarrow>
        (case exchange_block_with_radio p request read_packet_len w of
           (Inl e, w1) \<Rightarrow> (Inl e, w1)
         | (Inr (flag, new_data_bytes), w1) \<Rightarrow>
             if \<not> flag \<or> (length new_data_bytes > 14 \<and> uint (new_data_bytes ! 14) \<noteq> item)
             then (Inl (RadioError ''radio reported failure''), w1)
             else
               (case (if packet_index = 0 then struct_unpack_H (py_slice new_data_bytes 18 20)
                      else Inr packet_count) of
                  Inl e \<Rightarrow> (Inl e, w1)
                | Inr packet_count' \<Rightarrow>
                    read_packets_loop p item (Suc packet_index) packet_count'
                      (item_bytes @ py_slice new_data_bytes 20 (- 3))
                      (status_add (int (length new_data_bytes)) w1)))))
      else (Inr item_bytes, w))"
  by pat_completeness auto
termination
proof (relation "measure (\<lambda>(p, item, packet_index, packet_count, item_bytes, w).
          if packet_index = 0 then 65537 else nat (packet_count - int packet_index))")
  show "wf (measure (\<lambda>(p :: 'd pipe, item :: int, packet_index, packet_count,
          item_bytes :: bytes, w :: 'd world).
          if packet_index = 0 then 65537 else nat (packet_count - int packet_index)))"
    by simp
next
  fix p :: "'d pipe" and item :: int and packet_index :: nat and packet_count :: int
    and item_bytes :: bytes and w :: "'d world" and new_data_bytes :: bytes
    and w1 :: "'d world" and packet_count' :: int
  assume lt: "int packet_index < packet_count"
    and pc: "(if packet_index = 0 then struct_unpack_H (py_slice new_data_bytes 18 20)
              else Inr packet_count) = Inr packet_count'"
  have "packet_index = 0 \<Longrightarrow> packet_count' \<le> 65535"
  proof -
    assume "packet_index = 0"
    with pc obtain lo hi :: byte where "packet_count' = uint lo + 256 * uint hi"
      by (auto simp add: struct_unpack_H_def split: list.splits)
    moreover have "uint lo < 256" "uint hi < 256"
      using uint_lt2p [of lo] uint_lt2p [of hi] by simp_all
    ultimately show ?thesis by simp
  qed
  moreover have "packet_index \<noteq> 0 \<Longrightarrow> packet_count' = packet_count"
    using pc by simp
  ultimately show "((p, item, Suc packet_index, packet_count',
          item_bytes @ py_slice new_data_bytes 20 (- 3),
          status_add (int (length new_data_bytes)) w1),
         (p, item, packet_index, packet_count, item_bytes, w))
        \<in> measure (\<lambda>(p, item, packet_index, packet_count, item_bytes, w).
          if packet_index = 0 then 65537 else nat (packet_count - int packet_index))"
    using lt by (cases "packet_index = 0") auto
qed

definition get_read_current_packet_bytes ::
    "'d pipe \<Rightarrow> int \<Rightarrow> 'd world \<Rightarrow> (exn + bytes) \<times> 'd world" where
  "get_read_current_packet_bytes p item w = read_packets_loop p item 0 1 [] w"

text \<open>
  Slice assignment on a \<^verbatim>\<open>bytearray\<close>, \<^verbatim>\<open>xs[i:j] = ys\<close>: the slice is replaced by \<open>ys\<close>
  whatever their lengths, and a stop before the start is moved to the start.
\<close>

definition py_slice_assign :: "'a list \<Rightarrow> int \<Rightarrow> int \<Rightarrow> 'a list \<Rightarrow> 'a list" where
  "py_slice_assign xs i j ys =
     (let a = slice_bound (length xs) i;
          b = max a (slice_bound (length xs) j)
      in take a xs @ ys @ drop b xs)"

definition read_item_handle_connect_event :: "bytes \<Rightarrow> bytes \<Rightarrow> MemoryRegions \<Rightarrow> bytes" where
  "read_item_handle_connect_event all_bytes item_bytes item =
     (case MEMORY_REGIONS_RANGES item of
        None \<Rightarrow> all_bytes
      | Some (start, len) \<Rightarrow>
          (let item_len = min (int (length item_bytes)) len
           in py_slice_assign all_bytes start (start + item_len) (py_slice_to item_bytes item_len)))"

text \<open>
  The \<^verbatim>\<open>for\<close> loop of \<^verbatim>\<open>read_items\<close> over the items still to visit. Every exception of
  the body is an \<^verbatim>\<open>Exception\<close>, caught by the handler, which goes on to the next item.
\<close>

fun read_items_loop :: "'d pipe \<Rightarrow> MemoryRegions list \<Rightarrow> bytes \<Rightarrow> 'd world \<Rightarrow> (exn + bytes) \<times> 'd world" where
  "read_items_loop p [] all_bytes w = (Inr all_bytes, w)"
| "read_items_loop p (item # items) all_bytes w =
     (case get_read_current_packet_bytes p (region_value item) w of
        (Inl e, w1) \<Rightarrow> read_items_loop p items all_bytes w1
      | (Inr item_bytes, w1) \<Rightarrow>
          if item_bytes \<noteq> []
          then read_items_loop p items (read_item_handle_connect_event all_bytes item_bytes item) w1
          else read_items_loop p items all_bytes w1)"

definition read_items :: "'d pipe \<Rightarrow> 'd world \<Rightarrow> (exn + bytes) \<times> 'd world" where
  "read_items p w = read_items_loop p MemoryRegions_items (replicate memsize 0) (w\<lparr>status_cur := 0\<rparr>)"

definition get_write_item_bytes :: "bytes \<Rightarrow> MemoryRegions \<Rightarrow> bytes" where
  "get_write_item_bytes all_bytes item =
     (case MEMORY_REGIONS_RANGES item of
        None \<Rightarrow> []
      | Some (start, len) \<Rightarrow> py_slice all_bytes start (start + len))"

text \<open>
  \<^verbatim>\<open>math.ceil(a / b)\<close> for a length \<open>a\<close>: the quotient rounded up, \<^verbatim>\<open>ZeroDivisionError\<close> for
  \<open>b = 0\<close>. The page size is 1024, a power of two, so the floating-point quotient is exact.
\<close>

definition math_ceil_div :: "int \<Rightarrow> int \<Rightarrow> exn + int" where
  "math_ceil_div a b = (if b = 0 then Inl ZeroDivisionError else Inr (- ((- a) div b)))"

text \<open>The \<^verbatim>\<open>for i in range(0, packet_count)\<close> loop over the indices still to visit.\<close>

fun write_pages_loop ::
    "'d pipe \<Rightarrow> bytes \<Rightarrow> int \<Rightarrow> int \<Rightarrow> int \<Rightarrow> int list \<Rightarrow> 'd world \<Rightarrow> (exn + bool option) \<times> 'd world" where
  "write_pages_loop p item_Bytes item packet_len packet_count [] w = (Inr None, w)"
| "write_pages_loop p item_Bytes item packet_len packet_count (i # is) w =
     (case get_send_packet_bytes item i 0 packet_count
             (py_slice item_Bytes (i * packet_len) ((i + 1) * packet_len)) of
        Inl e \<Rightarrow> (Inl e, w)
      | Inr current_packet_bytes \<Rightarrow>
          (case exchange_block_with_radio p current_packet_bytes read_packet_len w of
             (Inl e, w1) \<Rightarrow> (Inl e, w1)
           | (Inr (flag, new_data_bytes), w1) \<Rightarrow>
               if \<not> flag \<or> (length new_data_bytes > 14 \<and> uint (new_data_bytes ! 14) \<noteq> item)
               then (Inl (RadioError ''radio reported failure''), w1)
               else write_pages_loop p item_Bytes item packet_len packet_count is
                      (status_add (int (length current_packet_bytes)) w1)))"

definition write_item_current_page_bytes ::
    "'d pipe \<Rightarrow> bytes \<Rightarrow> int \<Rightarrow> 'd world \<Rightarrow> (exn + bool option) \<times> 'd world" where
  "write_item_current_page_bytes p item_Bytes item w =
     (if item_Bytes = [] then (Inl (ValueError ''item_bytes cannot be empty''), w)
      else
        (let packet_len = write_page_len in
         case math_ceil_div (int (length item_Bytes)) packet_len of
           Inl e \<Rightarrow> (Inl e, w)
         | Inr packet_count \<Rightarrow>
             if packet_count = 0 then (Inr (Some True), w)
             else write_pages_loop p item_Bytes item packet_len packet_count
                    [0 ..  packet_count - 1] w))"

fun write_items_loop :: "'d pipe \<Rightarrow> bytes \<Rightarrow> MemoryRegions list \<Rightarrow> 'd world \<Rightarrow> (exn + unit) \<times> 'd world" where
  "write_items_loop p data_bytes [] w = (Inr (), w)"
| "write_items_loop p data_bytes (item # items) w =
     (if item \<in> set [radioHead, radioInfo, radioVer, zoneData]
      then write_items_loop p data_bytes items w
      else
        (case write_item_current_page_bytes p (get_write_item_bytes data_bytes item)
                (region_value item) w of
           (Inl e, w1) \<Rightarrow> (Inl e, w1)
         | (Inr r, w1) \<Rightarrow> write_items_loop p data_bytes items w1))"

text \<open>\<open>data_bytes\<close> is the radio object's memory map, \<^verbatim>\<open>self.get_mmap()\<close>.\<close>

definition write_items :: "'d pipe \<Rightarrow> bytes \<Rightarrow> 'd world \<Rightarrow> (exn + unit) \<times> 'd world" where
  "write_items p data_bytes w = write_items_loop p data_bytes MemoryRegions_items (w\<lparr>status_cur := 0\<rparr>)"

section \<open>Session controller\<close>

definition exit_packet :: bytes where
  "exit_packet =
     [0x52, 0x44, 0x54, 0x50, 0x01, 0x00, 0x00, 0x00, 0x00, 0x00, 0x00, 0x00,
      0x07, 0x00, 0x6F, 0x00, 0x00, 0x00, 0x01, 0x00, 0x00, 0x08, 0xB7, 0xFF]"

text \<open>
  \<^verbatim>\<open>exit_programming_mode\<close>: building the packet and writing it stand inside the
  \<^verbatim>\<open>try\<close>; any exception becomes the \<^verbatim>\<open>RadioError\<close> of the handler.
\<close>

definition exit_programming_mode :: "'d pipe \<Rightarrow> 'd world \<Rightarrow> (exn + unit) \<times> 'd world" where
  "exit_programming_mode p w =
     (case get_send_packet_bytes 111 0 0 1 [0x00] of
        Inl e \<Rightarrow> (Inl (RadioError ''Radio refused to exit programming mode''), w)
      | Inr pkt \<Rightarrow>
          (case serial_write p pkt w of
             (Inl e, w1) \<Rightarrow> (Inl (RadioError ''Radio refused to exit programming mode''), w1)
           | (Inr u, w1) \<Rightarrow> (Inr (), w1)))"

text \<open>\<^verbatim>\<open>error_map.get(handshake_result, "Unknown error communicating with radio")\<close>\<close>

fun error_map_get :: "HandshakeStatuses \<Rightarrow> string" where
  "error_map_get RadioWrong = ''Radio model mismatch''"
| "error_map_get PwdWrong = ''Radio is password protected''"
| "error_map_get status = ''Unknown error communicating with radio''"

text \<open>
  The two handlers of both entry points: a \<^verbatim>\<open>RadioError\<close> is raised again as it is, any
  other exception is replaced by the generic \<^verbatim>\<open>RadioError\<close>.
\<close>

fun except_handlers :: "(exn + 'a) \<times> 's \<Rightarrow> (exn + 'a) \<times> 's" where
  "except_handlers (Inl (RadioError msg), s) = (Inl (RadioError msg), s)"
| "except_handlers (Inl e, s) = (Inl (RadioError ''Unknown error communicating with radio''), s)"
| "except_handlers (Inr v, s) = (Inr v, s)"

text \<open>
  A \<^verbatim>\<open>finally\<close> clause runs after the \<^verbatim>\<open>try\<close> statement has its outcome, a returned value
  or an exception on its way out. When the clause raises, its exception takes the place of
  that outcome; when it completes, the outcome stands.
\<close>

definition py_finally :: "(exn + 'a) \<times> 's \<Rightarrow> ('s \<Rightarrow> (exn + unit) \<times> 's) \<Rightarrow> (exn + 'a) \<times> 's" where
  "py_finally outcome cleanup =
     (case outcome of
        (r, s) \<Rightarrow> (case cleanup s of (Inl e, s1) \<Rightarrow> (Inl e, s1) | (Inr u, s1) \<Rightarrow> (r, s1)))"

text \<open>The \<^verbatim>\<open>try\<close> block of \<^verbatim>\<open>do_download\<close> with its handlers, before the \<^verbatim>\<open>finally\<close> clause.\<close>

definition do_download_try :: "string \<Rightarrow> 'd pipe \<Rightarrow> 'd world \<Rightarrow> (exn + bytes) \<times> 'd world" where
  "do_download_try model_str p w =
     except_handlers
       (case handshake model_str p w of
          (Inl e, w1) \<Rightarrow> (Inl e, w1)
        | (Inr handshake_result, w1) \<Rightarrow>
            if handshake_result = Normal then read_items p w1
            else (Inl (RadioError (error_map_get handshake_result)), w1))"

definition do_download :: "string \<Rightarrow> 'd pipe \<Rightarrow> 'd world \<Rightarrow> (exn + bytes) \<times> 'd world" where
  "do_download model_str p w = py_finally (do_download_try model_str p w) (exit_programming_mode p)"

definition do_upload_try :: "string \<Rightarrow> bytes \<Rightarrow> 'd pipe \<Rightarrow> 'd world \<Rightarrow> (exn + unit) \<times> 'd world" where
  "do_upload_try model_str data_bytes p w =
     except_handlers
       (case handshake model_str p w of
          (Inl e, w1) \<Rightarrow> (Inl e, w1)
        | (Inr handshake_result, w1) \<Rightarrow>
            if handshake_result = Normal then write_items p data_bytes w1
            else (Inl (RadioError (error_map_get handshake_result)), w1))"

definition do_upload :: "string \<Rightarrow> bytes \<Rightarrow> 'd pipe \<Rightarrow> 'd world \<Rightarrow> (exn + unit) \<times> 'd world" where
  "do_upload model_str data_bytes p w =
     py_finally (do_upload_try model_str data_bytes p w) (exit_programming_mode p)"

section \<open>Vocabulary of the proofs\<close>

text \<open>
  Definitions the statements and proofs below use: the checksum on 16-bit words, the
  layout of packets, concrete packets and responses, two concrete serial links, and the
  traces that runs of the transfer loops leave.
\<close>

text \<open>
  One shift of the code's register, on a 16-bit word: the bridge between the integer
  register of \<open>crc16_loop\<close> and the bit-serial register of \<open>crc16_spec\<close>.
\<close>

definition crc16_word_shift :: "16 word \<Rightarrow> 16 word" where
  "crc16_word_shift w = (if bit w 0 then drop_bit 1 w XOR 0xA001 else drop_bit 1 w)"

text \<open>The two bytes of the specification's checksum, low byte first.\<close>

definition crc16_bytes :: "bytes \<Rightarrow> bytes" where
  "crc16_bytes buf = [ucast (crc16_spec buf), ucast (drop_bit 8 (crc16_spec buf))]"

text \<open>The 20 bytes that precede the payload in a packet of the encoder.\<close>

definition packet_header :: "int \<Rightarrow> int \<Rightarrow> int \<Rightarrow> int \<Rightarrow> int \<Rightarrow> bytes" where
  "packet_header data_type packet_index data_code packet_count declared =
     magic @ [word_of_int declared, word_of_int (drop_bit 8 declared),
              word_of_int (data_type AND 0xFF), word_of_int (data_code AND 0xFF),
              word_of_int (packet_index AND 0xFFFF), word_of_int (drop_bit 8 (packet_index AND 0xFFFF)),
              word_of_int (packet_count AND 0xFFFF), word_of_int (drop_bit 8 (packet_count AND 0xFFFF))]"

text \<open>The handshake packet for an encoded model name, up to its checksum.\<close>

definition handshake_body :: "bytes \<Rightarrow> bytes" where
  "handshake_body model_bytes =
     magic @ [0x2F, 0x00] @ [0x00, 0x00, 0x00, 0x00, 0x01, 0x00] @ model_bytes
       @ replicate (41 - length model_bytes) 0x00"

text \<open>The packet \<^verbatim>\<open>handshake\<close> sends for \<^verbatim>\<open>MODEL = "HA1G"\<close>, that is for the name \<^verbatim>\<open>"HA1G "\<close>.\<close>

definition hello_HA1G :: bytes where
  "hello_HA1G =
     [0x52, 0x44, 0x54, 0x50, 0x01, 0x00, 0x00, 0x00, 0x00, 0x00, 0x00, 0x00,
      0x2F, 0x00,
      0x00, 0x00, 0x00, 0x00, 0x01, 0x00,
      0x48, 0x41, 0x31, 0x47, 0x20,
      0, 0, 0, 0, 0, 0, 0, 0, 0, 0, 0, 0, 0, 0, 0, 0, 0, 0,
      0, 0, 0, 0, 0, 0, 0, 0, 0, 0, 0, 0, 0, 0, 0, 0, 0, 0,
      0xF0, 0xBA, 0xFF]"

text \<open>
  A well-formed frame of 20 bytes: preamble, length field 3, the three bytes
  \<^verbatim>\<open>00 01 00\<close>, their checksum and the sentinel.
\<close>

definition short_frame :: bytes where
  "short_frame =
     [0x52, 0x44, 0x54, 0x50, 0x01, 0x00, 0x00, 0x00, 0x00, 0x00, 0x00, 0x00,
      0x03, 0x00, 0x00, 0x01, 0x00, 0xED, 0x3C, 0xFF]"

text \<open>Two environments: a link on which every call raises, and a radio that always answers
  with the same bytes.\<close>

definition dead_pipe :: "unit pipe" where
  "dead_pipe = \<lparr>pipe_write = (\<lambda>d data. (d, Some ''port closed'')),
                 pipe_read = (\<lambda>d n. (d, Inl ''port closed''))\<rparr>"

definition ok_pipe :: "bytes \<Rightarrow> unit pipe" where
  "ok_pipe resp = \<lparr>pipe_write = (\<lambda>d data. (d, None)), pipe_read = (\<lambda>d n. (d, Inr resp))\<rparr>"

definition world0 :: "unit world" where
  "world0 = \<lparr>dev = (), trace = [], status_cur = 0\<rparr>"

text \<open>
  A response that carries \<^verbatim>\<open>00 01\<close> at bytes 14 and 15 and the model name from byte 20,
  with one bit of its checksum wrong (\<^verbatim>\<open>36 39\<close> for \<^verbatim>\<open>36 38\<close>).
\<close>

definition corrupted_reply :: bytes where
  "corrupted_reply =
     [0x52, 0x44, 0x54, 0x50, 0x01, 0x00, 0x00, 0x00, 0x00, 0x00, 0x00, 0x00,
      0x0A, 0x00, 0x00, 0x01, 0x00, 0x00, 0x00, 0x00, 0x48, 0x41, 0x31, 0x47,
      0x36, 0x39, 0xFF]"

text \<open>The events that are writes to the link.\<close>

fun is_Write :: "event \<Rightarrow> bool" where
  "is_Write (Write pkt) = True"
| "is_Write e = False"

text \<open>
  The test both transfer loops make on a response: the exchange has failed when the
  response does not validate, or when it has more than 14 bytes and byte 14 is not the
  region asked for.
\<close>

definition exchange_failed :: "int \<Rightarrow> bytes \<Rightarrow> bool" where
  "exchange_failed item resp =
     (validate_packet resp 1024 = Inr False \<or> (14 < length resp \<and> uint (resp ! 14) \<noteq> item))"

text \<open>The exception a call ended with, if any.\<close>

fun raised :: "exn + 'a \<Rightarrow> exn option" where
  "raised (Inl e) = Some e"
| "raised (Inr v) = None"

text \<open>
  The traces a run of packet exchanges can leave, with the exception it ends with: each
  exchange that succeeds leaves its write, its read and the progress report; the run stops
  without an event, after a write whose answer never came, or after an answer, and after a
  failed exchange only with the communication failure.
\<close>

inductive exchanges :: "event list \<Rightarrow> exn option \<Rightarrow> bool" where
  nothing: "exchanges [] x"
| no_answer: "x \<noteq> None \<Longrightarrow> exchanges [Write pkt] x"
| failure: "exchange_failed (uint (pkt ! 14)) resp \<Longrightarrow>
     exchanges [Write pkt, Read resp] (Some (RadioError ''radio reported failure''))"
| bad_answer: "\<not> exchange_failed (uint (pkt ! 14)) resp \<Longrightarrow> x \<noteq> None \<Longrightarrow>
     exchanges [Write pkt, Read resp] x"
| answered: "\<not> exchange_failed (uint (pkt ! 14)) resp \<Longrightarrow> exchanges evs x \<Longrightarrow>
     exchanges (Write pkt # Read resp # StatusFn c # evs) x"

text \<open>Every packet written carries the region in byte 14.\<close>

definition writes_for :: "int \<Rightarrow> event list \<Rightarrow> bool" where
  "writes_for item evs = list_all (\<lambda>e. case e of Write pkt \<Rightarrow> uint (pkt ! 14) = item | _ \<Rightarrow> True) evs"

text \<open>Two images of the same length that agree outside the slice of a region.\<close>

definition same_outside :: "MemoryRegions \<Rightarrow> bytes \<Rightarrow> bytes \<Rightarrow> bool" where
  "same_outside item img img' =
     (length img' = length img
      \<and> (\<forall>s l j. MEMORY_REGIONS_RANGES item = Some (s, l) \<longrightarrow> j < length img \<longrightarrow>
             (int j < s \<or> s + l \<le> int j) \<longrightarrow> img' ! j = img ! j))"

text \<open>
  What a run of the download loop over the regions still to visit leaves: for each region
  a run of exchanges that starts with the write of its first request and carries the region
  in every packet; an image that is unchanged when the region raised, and changed inside
  the region's slice only otherwise.
\<close>

inductive download_run :: "MemoryRegions list \<Rightarrow> bytes \<Rightarrow> event list \<Rightarrow> bytes \<Rightarrow> bool" where
  finished: "download_run [] img [] img"
| region: "get_send_packet_bytes (region_value item) 0 2 1 [0x00, 0x00] = Inr req \<Longrightarrow>
     exchanges (Write req # evs1) x \<Longrightarrow>
     writes_for (region_value item) (Write req # evs1) \<Longrightarrow>
     (x \<noteq> None \<Longrightarrow> img1 = img0) \<Longrightarrow>
     same_outside item img0 img1 \<Longrightarrow>
     download_run items img1 evs2 img2 \<Longrightarrow>
     download_run (item # items) img0 ((Write req # evs1) @ evs2) img2"

text \<open>
  The first page of the settings region when that region is the single byte \<^verbatim>\<open>00\<close>, and
  the first read request for the header region.
\<close>

definition settings_page :: bytes where
  "settings_page =
     [0x52, 0x44, 0x54, 0x50, 0x01, 0x00, 0x00, 0x00, 0x00, 0x00, 0x00, 0x00,
      0x07, 0x00, 0x06, 0x00, 0x00, 0x00, 0x01, 0x00, 0x00, 0xF1, 0xB1, 0xFF]"

definition head_request :: bytes where
  "head_request =
     [0x52, 0x44, 0x54, 0x50, 0x01, 0x00, 0x00, 0x00, 0x00, 0x00, 0x00, 0x00,
      0x08, 0x00, 0x02, 0x02, 0x00, 0x00, 0x01, 0x00, 0x00, 0x00, 0x62, 0x87, 0xFF]"

section \<open>The checksum is the reflected CRC-16\<close>

lemma int_and_1_iff: "((k::int) AND 1 \<noteq> 0) = bit k 0"
  by (simp add: and_one_eq bit_0 odd_iff_mod_2_eq_one)

lemma uint_and_1_iff: "(uint (w :: 16 word) AND 1 \<noteq> 0) = bit w 0"
  by (simp only: int_and_1_iff bit_uint_iff) simp

lemma uint_drop_bit_16: "uint (drop_bit n (w :: 16 word)) = drop_bit n (uint w)"
  by (simp add: unsigned_drop_bit_eq bintr_uint)

lemma uint_crc16_word_shift: "uint (crc16_word_shift w) = crc16_shift (uint w)"
  unfolding crc16_word_shift_def crc16_shift_def uint_and_1_iff
  by (simp add: uint_xor uint_drop_bit_16)

lemma uint_crc16_word_bits:
  "uint ((crc16_word_shift ^^ n) w) = crc16_bits n (uint w)"
  by (induction n arbitrary: w) (simp_all add: uint_crc16_word_shift funpow_swap1)

text \<open>
  Xor-ing a whole byte into the register and shifting eight times feeds the byte's bits
  one at a time: after \<open>k\<close> shifts the two registers differ by the bits not yet fed.
\<close>

lemma crc16_word_shift_xor:
  "crc16_word_shift (s XOR drop_bit k (ucast (b :: byte))) =
     crc16_spec_bit s (bit b k) XOR drop_bit (Suc k) (ucast b)"
proof -
  have b0: "bit (s XOR drop_bit k (ucast b :: 16 word)) 0 = (bit s 0 \<noteq> bit b k)"
    by (auto simp add: bit_xor_iff bit_drop_bit_eq bit_ucast_iff simp del: bit_0
          dest: bit_imp_le_length)
  have d: "drop_bit 1 (s XOR drop_bit k (ucast b :: 16 word)) =
        drop_bit 1 s XOR drop_bit (Suc k) (ucast b)"
    by (simp add: drop_bit_xor drop_bit_drop_bit)
  show ?thesis
    unfolding crc16_word_shift_def crc16_spec_bit_def b0 d
    by (simp add: xor.assoc xor.commute xor.left_commute)
qed

lemma crc16_word_bits_spec:
  "k \<le> 8 \<Longrightarrow> (crc16_word_shift ^^ k) (r XOR ucast (b :: byte)) =
     foldl crc16_spec_bit r (map (bit b) [0..<k]) XOR drop_bit k (ucast b)"
proof (induction k)
  case 0
  show ?case by simp
next
  case (Suc k)
  then have ih: "(crc16_word_shift ^^ k) (r XOR ucast b) =
     foldl crc16_spec_bit r (map (bit b) [0..<k]) XOR drop_bit k (ucast b)"
    by simp
  show ?case
    by (simp add: ih crc16_word_shift_xor del: drop_bit_Suc)
qed

lemma drop_bit_8_ucast_byte: "drop_bit 8 (ucast (b :: byte) :: 16 word) = 0"
  by (rule bit_eqI) (auto simp add: bit_drop_bit_eq bit_ucast_iff dest: bit_imp_le_length)

lemma crc16_word_byte:
  "(crc16_word_shift ^^ 8) (r XOR ucast (b :: byte)) = foldl crc16_spec_bit r (bits_lsb_first b)"
  using crc16_word_bits_spec [of 8 r b]
  by (simp add: bits_lsb_first_def drop_bit_8_ucast_byte)

lemma crc16_loop_spec:
  "crc16_loop (uint r) buf = uint (foldl crc16_spec_bit r (concat (map bits_lsb_first buf)))"
proof (induction buf arbitrary: r)
  case Nil
  show ?case by simp
next
  case (Cons b buf)
  have "uint r XOR uint b = uint (r XOR ucast b)"
    by (simp add: uint_xor unsigned_ucast_eq bintr_uint)
  then have "crc16_bits 8 (uint r XOR uint b) = uint (foldl crc16_spec_bit r (bits_lsb_first b))"
    by (simp only: flip: uint_crc16_word_bits crc16_word_byte)
  then show ?case
    by (simp add: Cons.IH)
qed

lemma crc16_loop_eq_spec: "crc16_loop 0 buf = uint (crc16_spec buf)"
  using crc16_loop_spec [of 0 buf] by (simp add: crc16_spec_def)

text \<open>
  The register never leaves the 16-bit range, so packing it with \<^verbatim>\<open><H\<close> never raises:
  the checksum is total and is the low byte followed by the high byte.
\<close>

lemma calculate_crc16_total: "calculate_crc16 buf = Inr (crc16_bytes buf)"
proof -
  have "uint (crc16_spec buf) \<le> 65535"
    using uint_lt2p [of "crc16_spec buf"] by simp
  moreover have "word_of_int (drop_bit 8 (uint (crc16_spec buf))) =
      (ucast (drop_bit 8 (crc16_spec buf)) :: byte)"
    by (simp flip: uint_drop_bit_16)
  ultimately show ?thesis
    by (simp add: calculate_crc16_def struct_pack_H_def crc16_loop_eq_spec crc16_bytes_def)
qed

lemma length_crc16_bytes: "length (crc16_bytes buf) = 2"
  by (simp add: crc16_bytes_def)

lemma crc16_loop_check: "crc16_loop 0 [0x31, 0x32, 0x33, 0x34, 0x35, 0x36, 0x37, 0x38, 0x39] = 0xBB3D"
  by code_simp

lemma unpack_pack_word16:
  "struct_unpack_H [ucast (v :: 16 word), ucast (drop_bit 8 v)] = Inr (uint v)"
proof -
  have "uint (ucast v :: byte) = take_bit 8 (uint v)"
    by (simp add: unsigned_ucast_eq)
  moreover have "uint (ucast (drop_bit 8 v) :: byte) = drop_bit 8 (uint v)"
    by (simp add: unsigned_ucast_eq uint_drop_bit_16 take_bit_drop_bit bintr_uint)
  ultimately show ?thesis
    by (simp add: struct_unpack_H_def take_bit_eq_mod drop_bit_eq_div)
qed

text \<open>
  Claim C10. \<open>calculate_crc16\<close> is a function of its input alone; for every input it
  returns the two bytes, low byte first, of the reflected CRC-16 of the specification
  (polynomial \<^verbatim>\<open>0xA001\<close>, register initially zero, bits fed least significant first, no
  final xor), so unpacking them as a little-endian 16-bit integer gives that CRC back;
  the empty input gives \<^verbatim>\<open>0x0000\<close> and the ASCII bytes of \<^verbatim>\<open>123456789\<close> give \<^verbatim>\<open>0xBB3D\<close>.
\<close>

theorem calculate_crc16_reflected_crc16:
  "calculate_crc16 buf = Inr [ucast (crc16_spec buf), ucast (drop_bit 8 (crc16_spec buf))]
   \<and> struct_unpack_H [ucast (crc16_spec buf), ucast (drop_bit 8 (crc16_spec buf))]
       = Inr (uint (crc16_spec buf))
   \<and> crc16_spec [] = 0x0000
   \<and> calculate_crc16 [] = Inr [0x00, 0x00]
   \<and> crc16_spec [0x31, 0x32, 0x33, 0x34, 0x35, 0x36, 0x37, 0x38, 0x39] = 0xBB3D
   \<and> encode_ascii ''123456789'' = Inr [0x31, 0x32, 0x33, 0x34, 0x35, 0x36, 0x37, 0x38, 0x39]
   \<and> calculate_crc16 [0x31, 0x32, 0x33, 0x34, 0x35, 0x36, 0x37, 0x38, 0x39] = Inr [0x3D, 0xBB]"
proof -
  have v: "uint (crc16_spec [0x31, 0x32, 0x33, 0x34, 0x35, 0x36, 0x37, 0x38, 0x39]) = 0xBB3D"
    using crc16_loop_check by (simp only: crc16_loop_eq_spec)
  then have w: "crc16_spec [0x31, 0x32, 0x33, 0x34, 0x35, 0x36, 0x37, 0x38, 0x39] = 0xBB3D"
    by (metis word_of_int_uint word_of_int_numeral)
  have e: "crc16_spec [] = 0"
    by (simp add: crc16_spec_def)
  show ?thesis
    using calculate_crc16_total [of buf] calculate_crc16_total [of "[]"]
      calculate_crc16_total [of "[0x31, 0x32, 0x33, 0x34, 0x35, 0x36, 0x37, 0x38, 0x39]"]
    by (simp add: crc16_bytes_def unpack_pack_word16 w e encode_ascii_def)
qed

section \<open>Packet codec: validation and encoding\<close>

lemma py_slice_last_two:
  assumes n: "3 \<le> length xs"
  shows "py_slice xs (- 3) (- 1) = [xs ! (length xs - 3), xs ! (length xs - 2)]"
proof -
  have a: "slice_bound (length xs) (- 3) = length xs - 3"
    and b: "slice_bound (length xs) (- 1) = length xs - 1"
    using n by (simp_all add: slice_bound_def nat_diff_distrib')
  have "drop (length xs - 3) (take (length xs - 1) xs) = [xs ! (length xs - 3), xs ! (length xs - 2)]"
  proof (intro nth_equalityI)
    show "length (drop (length xs - 3) (take (length xs - 1) xs)) =
        length [xs ! (length xs - 3), xs ! (length xs - 2)]"
      using n by simp
  next
    fix i
    assume "i < length (drop (length xs - 3) (take (length xs - 1) xs))"
    then have "i = 0 \<or> i = 1" using n by auto
    then show "drop (length xs - 3) (take (length xs - 1) xs) ! i =
        [xs ! (length xs - 3), xs ! (length xs - 2)] ! i"
    proof
      assume "i = 0" then show ?thesis using n by simp
    next
      assume i: "i = 1"
      have "length xs - 3 + 1 = length xs - 2" using n by simp
      then show ?thesis using n i by simp
    qed
  qed
  then show ?thesis
    by (simp add: py_slice_def a b)
qed

lemma py_slice_to_minus3: "py_slice_to xs (- 3) = take (length xs - 3) xs"
  by (simp add: py_slice_to_def slice_bound_def nat_diff_distrib')

lemma validate_packet_iff:
  "validate_packet bs chunk_size =
     Inr (13 < length bs
          \<and> (if uint (bs ! 12) > 6 then uint (bs ! 12) - 6 else 0)
             + uint (bs ! 13) * (if chunk_size > 255 then 256 else chunk_size + 1)
             \<le> int (length bs) - 17
          \<and> calculate_crc16 (take (length bs - 3) bs)
              = Inr [bs ! (length bs - 3), bs ! (length bs - 2)])"
proof (cases "length bs \<le> 13")
  case True
  then show ?thesis by (simp add: validate_packet_def)
next
  case False
  then have "3 \<le> length bs" by simp
  then show ?thesis
    using False
    by (auto simp add: validate_packet_def Let_def py_slice_last_two py_slice_to_minus3
        calculate_crc16_total)
qed

text \<open>
  Claim C5. \<open>validate_packet\<close> never raises. It returns \<open>False\<close> for every input of at
  most 13 bytes; for a longer input it returns \<open>True\<close> exactly when the length minus 17 is
  at least (byte 12 minus 6 if byte 12 exceeds 6, else 0) plus byte 13 times \<open>C\<close>, where
  \<open>C\<close> is 256 for a chunk size above 255 and the chunk size plus one otherwise, and the
  checksum of all bytes but the last three is the two bytes before the last one.
\<close>

theorem validate_packet_characterisation:
  "validate_packet bs chunk_size =
     Inr (if length bs \<le> 13 then False
          else (if uint (bs ! 12) > 6 then uint (bs ! 12) - 6 else 0)
                 + uint (bs ! 13) * (if chunk_size > 255 then 256 else chunk_size + 1)
                 \<le> int (length bs) - 17
               \<and> calculate_crc16 (take (length bs - 3) bs)
                   = Inr [bs ! (length bs - 3), bs ! (length bs - 2)])"
  unfolding validate_packet_iff by auto

text \<open>
  The packet the encoder builds: a 20-byte header, the payload, the checksum of both and
  the sentinel. The only exception is the \<^verbatim>\<open>struct.error\<close> of a declared length that does
  not fit 16 bits, for a payload of more than 65529 bytes.
\<close>

lemma length_packet_header: "length (packet_header t i c n d) = 20"
  by (simp add: packet_header_def magic_def)

lemma and_mask_range: "0 \<le> m \<Longrightarrow> 0 \<le> (x::int) AND m \<and> x AND m \<le> m"
  by (simp add: AND_upper2)

lemma get_send_packet_bytes_eq:
  "get_send_packet_bytes t i c n buf =
     (if int (length buf) + 6 \<le> 65535
      then Inr (packet_header t i c n (int (length buf) + 6) @ buf
                @ crc16_bytes (packet_header t i c n (int (length buf) + 6) @ buf) @ [0xFF])
      else Inl StructError)"
  using and_mask_range [of "0xFF" t] and_mask_range [of "0xFF" c]
    and_mask_range [of "0xFFFF" i] and_mask_range [of "0xFFFF" n]
  by (simp add: get_send_packet_bytes_def struct_pack_s_def struct_pack_H_def struct_pack_B_def
      calculate_crc16_total packet_header_def magic_def Let_def)

lemma header_nth_12: "packet_header t i c n d ! 12 = word_of_int d"
  and header_nth_13: "packet_header t i c n d ! 13 = word_of_int (drop_bit 8 d)"
  and header_nth_14: "packet_header t i c n d ! 14 = word_of_int (t AND 0xFF)"
  by (simp_all add: packet_header_def magic_def)

lemma declared_length_bound:
  assumes "0 \<le> d" "d \<le> 65535" "C \<le> 256"
  shows "(if uint (word_of_int d :: byte) > 6 then uint (word_of_int d :: byte) - 6 else 0)
         + uint (word_of_int (drop_bit 8 d) :: byte) * C \<le> d"
proof -
  have lo: "uint (word_of_int d :: byte) = d mod 256"
    by (simp add: uint_word_of_int take_bit_eq_mod)
  have "d div 256 < 256" using assms by simp
  then have hi: "uint (word_of_int (drop_bit 8 d) :: byte) = d div 256"
    using assms by (simp add: uint_word_of_int take_bit_eq_mod drop_bit_eq_div)
  have "d div 256 * C \<le> d div 256 * 256"
    using assms by (intro mult_left_mono) simp_all
  moreover have "d = d div 256 * 256 + d mod 256" by simp
  moreover have "0 \<le> d div 256 * 256" using assms by simp
  moreover have "0 \<le> d mod 256" by simp
  ultimately have "d mod 256 - 6 + d div 256 * C \<le> d" and "d div 256 * C \<le> d"
    by linarith+
  then show ?thesis
    unfolding lo hi by simp
qed

lemma flip_bit_changes: "k < 8 \<Longrightarrow> x XOR push_bit k 1 \<noteq> (x :: byte)"
proof
  assume k: "k < 8" and e: "x XOR push_bit k 1 = x"
  have "bit (x XOR push_bit k 1) k = (\<not> bit x k)"
    using k by (simp add: bit_xor_iff bit_exp_iff)
  with e show False by simp
qed

lemma validate_framed:
  assumes H: "length P \<ge> 14"
    and lb: "(if uint (P ! 12) > 6 then uint (P ! 12) - 6 else 0)
         + uint (P ! 13) * (if chunk_size > 255 then 256 else chunk_size + 1) \<le> int (length P) - 14"
  shows "validate_packet (P @ [a, b, z]) chunk_size = Inr ([a, b] = crc16_bytes P)"
proof -
  have n: "(P @ [a, b, z]) ! 12 = P ! 12" "(P @ [a, b, z]) ! 13 = P ! 13"
    using H by (simp_all add: nth_append)
  have t: "take (length (P @ [a, b, z]) - 3) (P @ [a, b, z]) = P"
    by simp
  have c: "(P @ [a, b, z]) ! (length (P @ [a, b, z]) - 3) = a"
      "(P @ [a, b, z]) ! (length (P @ [a, b, z]) - 2) = b"
    by (simp_all add: nth_append)
  show ?thesis
    unfolding validate_packet_iff n t c calculate_crc16_total
    using H lb by auto
qed

text \<open>
  Claim C4. Every packet the encoder returns passes \<open>validate_packet\<close>, whatever the chunk
  size, and the same packet with any one bit flipped in either checksum byte (the two
  bytes before the sentinel) is rejected.
\<close>

theorem encoder_passes_validation:
  assumes enc: "get_send_packet_bytes data_type packet_index data_code packet_count data_buffer = Inr pkt"
  shows "validate_packet pkt chunk_size = Inr True
     \<and> (\<forall>k < 8.
           validate_packet (pkt[length pkt - 3 := pkt ! (length pkt - 3) XOR push_bit k 1])
             chunk_size = Inr False
         \<and> validate_packet (pkt[length pkt - 2 := pkt ! (length pkt - 2) XOR push_bit k 1])
             chunk_size = Inr False)"
proof -
  define d where "d = int (length data_buffer) + 6"
  define P where "P = packet_header data_type packet_index data_code packet_count d @ data_buffer"
  from enc have d: "d \<le> 65535" and pkt: "pkt = P @ crc16_bytes P @ [0xFF]"
    by (simp_all add: get_send_packet_bytes_eq d_def P_def split: if_splits)
  obtain a b where ab: "crc16_bytes P = [a, b]"
    by (simp add: crc16_bytes_def)
  have lenP: "length P = 20 + length data_buffer"
    by (simp add: P_def length_packet_header)
  have P12: "P ! 12 = word_of_int d" and P13: "P ! 13 = word_of_int (drop_bit 8 d)"
    by (simp_all add: P_def nth_append length_packet_header header_nth_12 header_nth_13)
  have C: "(if chunk_size > 255 then 256 else chunk_size + 1) \<le> 256"
    by simp
  have "0 \<le> d" by (simp add: d_def)
  from declared_length_bound [OF this d C]
  have lb: "(if uint (P ! 12) > 6 then uint (P ! 12) - 6 else 0)
         + uint (P ! 13) * (if chunk_size > 255 then 256 else chunk_size + 1) \<le> int (length P) - 14"
    unfolding P12 P13 lenP d_def by simp
  have H: "length P \<ge> 14" using lenP by simp
  have v: "\<And>a' b'. validate_packet (P @ [a', b', 0xFF]) chunk_size = Inr ([a', b'] = [a, b])"
    using validate_framed [OF H lb] ab by simp
  have p: "pkt = P @ [a, b, 0xFF]" using pkt ab by simp
  have i3: "length pkt - 3 = length P" and i2: "length pkt - 2 = length P + 1"
    by (simp_all add: p)
  have u3: "\<And>x. pkt[length P := x] = P @ [x, b, 0xFF]"
    and u2: "\<And>x. pkt[length P + 1 := x] = P @ [a, x, 0xFF]"
    by (simp_all add: p list_update_append)
  have n3: "pkt ! length P = a" and n2: "pkt ! (length P + 1) = b"
    by (simp_all add: p nth_append)
  show ?thesis
    unfolding i3 i2 u3 u2 n3 n2 v
    by (simp add: p v flip_bit_changes [unfolded push_bit_of_1])
qed

lemma exit_packet_encoded: "get_send_packet_bytes 111 0 0 1 [0x00] = Inr exit_packet"
  unfolding exit_packet_def by code_simp

theorem encoder_passes_validation_witness:
  "get_send_packet_bytes 111 0 0 1 [0x00] = Inr exit_packet
   \<and> validate_packet exit_packet 1024 = Inr True
   \<and> validate_packet (exit_packet[21 := 0x09]) 1024 = Inr False
   \<and> validate_packet (exit_packet[22 := 0x37]) 1024 = Inr False"
proof -
  have l: "length exit_packet = 24" and n21: "exit_packet ! 21 = 0x08"
    and n22: "exit_packet ! 22 = 0xB7"
    by (simp_all add: exit_packet_def)
  have k0: "(0::nat) < 8" and k7: "(7::nat) < 8"
    by simp_all
  note t = encoder_passes_validation [OF exit_packet_encoded, of 1024]
  note f0 = t [THEN conjunct2, rule_format, OF k0, THEN conjunct1]
  note f7 = t [THEN conjunct2, rule_format, OF k7, THEN conjunct2]
  show ?thesis
    using t [THEN conjunct1] f0 f7 exit_packet_encoded by (simp add: l n21 n22)
qed

theorem validate_packet_characterisation_witness:
  "validate_packet exit_packet 1024 = Inr True \<and> validate_packet (take 13 exit_packet) 1024 = Inr False"
proof -
  have c: "calculate_crc16 (take (length exit_packet - 3) exit_packet) = Inr [0x08, 0xB7]"
    unfolding exit_packet_def by code_simp
  show ?thesis
    unfolding validate_packet_characterisation
    using c by (simp add: exit_packet_def)
qed

section \<open>Handshake packet\<close>

lemma nat_41_minus: "nat (41 - int n) = 41 - n"
  by simp

lemma get_handshake_bytes_eq:
  "get_handshake_bytes currentModel =
     (case encode_ascii currentModel of
        Inl e \<Rightarrow> Inl e
      | Inr model_bytes \<Rightarrow>
          if length model_bytes \<le> 41
          then Inr (handshake_body model_bytes @ crc16_bytes (handshake_body model_bytes) @ [0xFF])
          else Inl StructError)"
  by (auto simp add: get_handshake_bytes_def Let_def struct_pack_s_def struct_pack_H_def
        calculate_crc16_total handshake_body_def magic_def nat_41_minus
      simp del: nat_diff_distrib' split: sum.splits)

lemma get_handshake_bytes_HA1G: "get_handshake_bytes ''HA1G '' = Inr hello_HA1G"
  unfolding hello_HA1G_def by code_simp

text \<open>
  Claim C8, as stated, fails: the packet for the name \<^verbatim>\<open>"HA1G "\<close> is 64 bytes long, so
  it is not a 12-byte preamble, a 2-byte length field, a block of 41 bytes, a 2-byte checksum
  and a sentinel (58 bytes); and a name of 42 characters gives no packet at all.
\<close>

theorem handshake_block_is_not_41_bytes:
  "get_handshake_bytes ''HA1G '' = Inr hello_HA1G
   \<and> length hello_HA1G = 64
   \<and> \<not> (\<exists>len_field block crc sentinel.
           hello_HA1G = magic @ len_field @ block @ crc @ [sentinel]
           \<and> length len_field = 2 \<and> length block = 41 \<and> length crc = 2)
   \<and> get_handshake_bytes (replicate 42 (CHR ''A'')) = Inl StructError"
proof -
  have l: "length hello_HA1G = 64"
    by (simp add: hello_HA1G_def)
  have "\<not> (\<exists>len_field block crc sentinel.
           hello_HA1G = magic @ len_field @ block @ crc @ [sentinel]
           \<and> length len_field = 2 \<and> length block = 41 \<and> length crc = 2)"
  proof
    assume "\<exists>len_field block crc sentinel.
           hello_HA1G = magic @ len_field @ block @ crc @ [sentinel]
           \<and> length len_field = 2 \<and> length block = 41 \<and> length crc = 2"
    then obtain len_field block crc sentinel
      where e: "hello_HA1G = magic @ len_field @ block @ crc @ [sentinel]"
        and n: "length len_field = 2" "length block = 41" "length crc = 2"
      by blast
    have "length hello_HA1G = length (magic @ len_field @ block @ crc @ [sentinel])"
      using e by simp
    then show False
      using n by (simp add: l magic_def)
  qed
  moreover have "encode_ascii (replicate 42 (CHR ''A'')) = Inr (replicate 42 0x41)"
    by (simp add: encode_ascii_def list_all_iff)
  then have "get_handshake_bytes (replicate 42 (CHR ''A'')) = Inl StructError"
    by (simp add: get_handshake_bytes_eq)
  ultimately show ?thesis
    using get_handshake_bytes_HA1G l by simp
qed

text \<open>
  Claim C8, amended. For a model name that encodes to ASCII and has at most 41 characters,
  \<open>get_handshake_bytes\<close> returns exactly: the 12-byte preamble, the little-endian 16-bit
  length field holding 47, the 6-byte prefix \<^verbatim>\<open>00 00 00 00 01 00\<close>, the ASCII name, zero
  padding such that name and padding total 41 bytes (prefix, name and padding total 47),
  the two bytes \<open>calculate_crc16\<close> gives for everything preceding, and the sentinel
  \<^verbatim>\<open>0xFF\<close>. A name that does not encode raises \<^verbatim>\<open>UnicodeEncodeError\<close>, a longer one
  \<^verbatim>\<open>struct.error\<close>.
\<close>

theorem get_handshake_bytes_layout:
  "get_handshake_bytes currentModel =
     (case encode_ascii currentModel of
        Inl e \<Rightarrow> Inl e
      | Inr model_bytes \<Rightarrow>
          if length model_bytes \<le> 41
          then (let padding = replicate (41 - length model_bytes) 0x00;
                    packet = magic @ [0x2F, 0x00] @ [0x00, 0x00, 0x00, 0x00, 0x01, 0x00]
                             @ model_bytes @ padding
                in case calculate_crc16 packet of
                     Inl e \<Rightarrow> Inl e
                   | Inr crc \<Rightarrow> Inr (packet @ crc @ [0xFF]))
          else Inl StructError)
   \<and> length magic = 12
   \<and> struct_unpack_H [0x2F, 0x00] = Inr 47
   \<and> length (model_bytes @ replicate (41 - length model_bytes) (0x00 :: byte))
       = max 41 (length model_bytes)"
  unfolding get_handshake_bytes_eq
  by (auto simp add: calculate_crc16_total handshake_body_def Let_def magic_def
      struct_unpack_H_def split: sum.splits)

theorem get_handshake_bytes_layout_witness:
  "get_handshake_bytes ''HA1G '' = Inr hello_HA1G \<and> length hello_HA1G = 12 + 2 + 6 + 41 + 2 + 1"
proof -
  have e: "encode_ascii ''HA1G '' = Inr [0x48, 0x41, 0x31, 0x47, 0x20]"
    by (simp add: encode_ascii_def)
  have c: "calculate_crc16 (take 61 hello_HA1G) = Inr [0xF0, 0xBA]"
    unfolding hello_HA1G_def by code_simp
  have t: "magic @ [0x2F, 0x00] @ [0x00, 0x00, 0x00, 0x00, 0x01, 0x00]
      @ [0x48, 0x41, 0x31, 0x47, 0x20] @ replicate 36 0x00 = take 61 hello_HA1G"
    by (simp add: hello_HA1G_def magic_def eval_nat_numeral)
  have h: "hello_HA1G = take 61 hello_HA1G @ [0xF0, 0xBA] @ [0xFF]"
    by (simp add: hello_HA1G_def)
  have "get_handshake_bytes ''HA1G '' = Inr (take 61 hello_HA1G @ [0xF0, 0xBA] @ [0xFF])"
    using t c get_handshake_bytes_layout [of "''HA1G ''" "[]", THEN conjunct1]
    by (simp add: e Let_def)
  then show ?thesis
    using h by (simp add: hello_HA1G_def)
qed

section \<open>Handshake classification\<close>

lemma py_slice_nonneg:
  "0 \<le> i \<Longrightarrow> 0 \<le> j \<Longrightarrow> py_slice xs i j = drop (nat i) (take (nat j) xs)"
  by (simp add: py_slice_def slice_bound_def min_def)

lemma drop_take_two:
  assumes "n + 1 < length xs"
  shows "drop n (take (n + 2) xs) = [xs ! n, xs ! (n + 1)]"
proof -
  have "take (n + 2) xs = take n xs @ [xs ! n, xs ! (n + 1)]"
    using assms by (simp add: take_Suc_conv_app_nth)
  moreover have "length (take n xs) = n" using assms by simp
  ultimately show ?thesis by simp
qed

text \<open>
  For a response of more than 20 bytes the classifier returns one of the four outcomes, by
  the cascade of the source.
\<close>

lemma handshake_classification:
  assumes len: "20 < length dataByte" and enc: "encode_ascii model_str = Inr model_bytes"
  shows "handshake_handle_connect_event model_str dataByte =
     Inr (if [dataByte ! 14, dataByte ! 15] \<noteq> [0x00, 0x01] then Wrong
          else if dataByte ! 20 = 1 then PwdWrong
          else if take (length model_bytes) (drop 20 dataByte) = model_bytes then Normal
          else RadioWrong)"
proof -
  have s1: "py_slice dataByte 14 16 = [dataByte ! 14, dataByte ! 15]"
    using len drop_take_two [of 14 dataByte] by (simp add: py_slice_nonneg)
  have l: "length model_bytes = length model_str"
    using enc by (auto simp add: encode_ascii_def split: if_splits)
  have s2: "py_slice dataByte 20 (20 + int (length model_str))
      = take (length model_bytes) (drop 20 dataByte)"
    by (simp add: py_slice_nonneg nat_add_distrib l drop_take)
  have b: "(uint (dataByte ! 20) = 1) = (dataByte ! 20 = 1)"
    by (metis uint_1 word_uint_eq_iff)
  show ?thesis
    unfolding handshake_handle_connect_event_def s1 s2 Let_def
    using len by (simp add: py_index_def enc b)
qed

text \<open>
  Claim C6 at the response \<open>short_frame\<close>: the response passes \<open>validate_packet\<close> and
  carries \<^verbatim>\<open>00 01\<close> at bytes 14 and 15, and the classifier raises \<^verbatim>\<open>IndexError\<close> at
  \<^verbatim>\<open>dataByte[20]\<close> where the claim has it return one of the four outcomes.
\<close>

theorem short_valid_frame_raises_IndexError:
  "validate_packet short_frame 1024 = Inr True
   \<and> py_slice short_frame 14 16 = [0x00, 0x01]
   \<and> handshake_handle_connect_event ''HA1G'' short_frame = Inl IndexError"
  unfolding short_frame_def by code_simp

section \<open>Session controller: leaving programming mode\<close>

lemma exit_programming_mode_eq:
  "exit_programming_mode p w =
     (case pipe_write p (dev w) exit_packet of
        (d, x) \<Rightarrow>
          ((case x of None \<Rightarrow> Inr ()
                    | Some msg \<Rightarrow> Inl (RadioError ''Radio refused to exit programming mode'')),
           w\<lparr>dev := d, trace := trace w @ [Write exit_packet]\<rparr>))"
  by (simp add: exit_programming_mode_def exit_packet_encoded serial_write_def
      split: prod.splits option.splits)

lemma handshake_dead_pipe:
  "handshake ''HA1G'' dead_pipe world0 =
     (Inl (OtherError ''port closed''), \<lparr>dev = (), trace = [Write hello_HA1G], status_cur = 0\<rparr>)"
  by (simp add: handshake_def eval_nat_numeral get_handshake_bytes_HA1G
      exchange_block_with_radio_def serial_write_def dead_pipe_def world0_def)

lemma do_download_try_dead_pipe:
  "do_download_try ''HA1G'' dead_pipe world0 =
      (Inl (RadioError ''Unknown error communicating with radio''),
       \<lparr>dev = (), trace = [Write hello_HA1G], status_cur = 0\<rparr>)"
  by (simp add: do_download_try_def handshake_dead_pipe)

lemma do_upload_try_dead_pipe:
  "do_upload_try ''HA1G'' [] dead_pipe world0 =
      (Inl (RadioError ''Unknown error communicating with radio''),
       \<lparr>dev = (), trace = [Write hello_HA1G], status_cur = 0\<rparr>)"
  by (simp add: do_upload_try_def handshake_dead_pipe)

lemma dead_pipe_write: "pipe_write dead_pipe () data = ((), Some ''port closed'')"
  by (simp add: dead_pipe_def)

text \<open>
  Claim C1, as stated, fails: on a link whose every call raises, the \<^verbatim>\<open>try\<close> statement
  of both entry points ends with the generic communication error, and the operation raises
  the error of the exit step in its place.
\<close>

theorem exit_failure_masks_prior_error:
  "fst (do_download_try ''HA1G'' dead_pipe world0)
     = Inl (RadioError ''Unknown error communicating with radio'')
   \<and> fst (do_download ''HA1G'' dead_pipe world0)
     = Inl (RadioError ''Radio refused to exit programming mode'')
   \<and> fst (do_upload_try ''HA1G'' [] dead_pipe world0)
     = Inl (RadioError ''Unknown error communicating with radio'')
   \<and> fst (do_upload ''HA1G'' [] dead_pipe world0)
     = Inl (RadioError ''Radio refused to exit programming mode'')"
  by (simp add: do_download_try_dead_pipe do_upload_try_dead_pipe dead_pipe_write
      do_download_def do_upload_def py_finally_def exit_programming_mode_eq)

text \<open>
  Claim C1, amended. In every run of \<open>do_download\<close> and of \<open>do_upload\<close> the exit step
  runs once, after the \<^verbatim>\<open>try\<close> statement has its outcome (a value, a protocol error or the
  generic error that replaces an unexpected exception): the last thing done to the link is
  the write of the exit packet. When that write returns, the operation ends with the outcome of
  the \<^verbatim>\<open>try\<close> statement unchanged; when it raises, the operation raises
  \<^verbatim>\<open>RadioError("Radio refused to exit programming mode")\<close> in place of that outcome, whether
  the outcome was a success or an error.
\<close>

theorem exit_programming_mode_runs_last:
  "do_download model_str p w =
     (case do_download_try model_str p w of
        (outcome, w1) \<Rightarrow>
          (case pipe_write p (dev w1) exit_packet of
             (d, x) \<Rightarrow>
               ((case x of None \<Rightarrow> outcome
                         | Some msg \<Rightarrow> Inl (RadioError ''Radio refused to exit programming mode'')),
                w1\<lparr>dev := d, trace := trace w1 @ [Write exit_packet]\<rparr>)))
   \<and> do_upload model_str data_bytes p w =
     (case do_upload_try model_str data_bytes p w of
        (outcome, w1) \<Rightarrow>
          (case pipe_write p (dev w1) exit_packet of
             (d, x) \<Rightarrow>
               ((case x of None \<Rightarrow> outcome
                         | Some msg \<Rightarrow> Inl (RadioError ''Radio refused to exit programming mode'')),
                w1\<lparr>dev := d, trace := trace w1 @ [Write exit_packet]\<rparr>)))
   \<and> get_send_packet_bytes 111 0 0 1 [0x00] = Inr exit_packet"
  by (simp add: do_download_def do_upload_def py_finally_def exit_programming_mode_eq
      exit_packet_encoded split: prod.splits option.splits)

theorem exit_programming_mode_runs_last_witness:
  "do_download ''HA1G'' dead_pipe world0 =
     (Inl (RadioError ''Radio refused to exit programming mode''),
      \<lparr>dev = (), trace = [Write hello_HA1G, Write exit_packet], status_cur = 0\<rparr>)"
  using exit_programming_mode_runs_last [of "''HA1G''" dead_pipe world0 "[]", THEN conjunct1]
  by (simp add: do_download_try_dead_pipe dead_pipe_write)

section \<open>A region with no pages\<close>

lemma ceil_div_zero_iff: "0 \<le> n \<Longrightarrow> ((- n) div 1024 = 0) = (n = (0::int))"
proof
  assume n: "0 \<le> n" and z: "(- n) div 1024 = 0"
  have "- n = (- n) div 1024 * 1024 + (- n) mod 1024" by simp
  moreover have "0 \<le> (- n) mod 1024" by simp
  ultimately have "0 \<le> - n" using z by linarith
  with n show "n = 0" by simp
next
  assume "n = 0" then show "(- n) div 1024 = 0" by simp
qed

text \<open>
  Claim C9, as stated, fails: for region bytes that split into zero pages, the empty
  byte string, \<open>write_item_current_page_bytes\<close> raises \<^verbatim>\<open>ValueError\<close>.
\<close>

theorem empty_region_is_not_a_success:
  "math_ceil_div (int (length ([] :: bytes))) write_page_len = Inr 0
   \<and> write_item_current_page_bytes (ok_pipe []) [] 6 world0
     = (Inl (ValueError ''item_bytes cannot be empty''), world0)"
  by (simp add: write_item_current_page_bytes_def math_ceil_div_def write_page_len_def)

text \<open>
  Claim C9, amended. The page count computed for region bytes is zero exactly when the
  bytes are empty, and uploading an empty region raises
  \<^verbatim>\<open>ValueError("item_bytes cannot be empty")\<close> and does nothing else: no packet is sent, the
  link and the progress counter are as before.
\<close>

theorem empty_region_raises_ValueError:
  "(math_ceil_div (int (length item_Bytes)) write_page_len = Inr 0) = (item_Bytes = [])
   \<and> write_item_current_page_bytes p [] item w
       = (Inl (ValueError ''item_bytes cannot be empty''), w)"
  using ceil_div_zero_iff [of "int (length item_Bytes)"]
  by (simp add: write_item_current_page_bytes_def math_ceil_div_def write_page_len_def)

theorem empty_region_raises_ValueError_witness:
  "(math_ceil_div (int (length [0x00 :: byte])) write_page_len = Inr 0) = False
   \<and> write_item_current_page_bytes dead_pipe [] 6 world0
       = (Inl (ValueError ''item_bytes cannot be empty''), world0)"
  using empty_region_raises_ValueError [of "[0x00]" dead_pipe 6 world0]
  by simp

section \<open>One exchange\<close>

text \<open>
  An exchange either raises after its write, with or without the read having been tried,
  or returns the response with the verdict of \<open>validate_packet\<close> for the chunk size 1024,
  the default the source leaves in place.
\<close>

lemma validate_packet_total: "\<exists>b. validate_packet resp n = Inr b"
  by (simp add: validate_packet_iff)

lemma exchange_block_with_radio_cases:
  assumes "exchange_block_with_radio p pkt n w = (r, w1)"
  shows "(\<exists>e. r = Inl e \<and> trace w1 = trace w @ [Write pkt])
       \<or> (\<exists>resp. r = Inr (validate_packet resp 1024 = Inr True, resp)
             \<and> trace w1 = trace w @ [Write pkt, Read resp])"
  using assms
  by (auto simp add: exchange_block_with_radio_def serial_write_def serial_read_def
      validate_packet_iff split: prod.splits option.splits sum.splits)

subsection \<open>Upload\<close>

section \<open>Handshake retries\<close>

text \<open>The handshake writes at most 15 packets, whatever the radio does.\<close>

lemma handshake_loop_bounded:
  assumes "handshake_loop model_str p n databytes w = (r, w')"
  shows "\<exists>evs. trace w' = trace w @ evs \<and> length (filter is_Write evs) \<le> n"
  using assms
proof (induction n arbitrary: databytes w)
  case 0
  then show ?case by simp
next
  case (Suc n)
  show ?case
  proof (cases "get_handshake_bytes (model_str @ '' '')")
    case (Inl e)
    with Suc.prems show ?thesis by simp
  next
    case (Inr hello)
    note hello = this
    obtain x w1 where ex: "exchange_block_with_radio p hello read_packet_len w = (x, w1)"
      by (cases "exchange_block_with_radio p hello read_packet_len w")
    from exchange_block_with_radio_cases [OF ex]
    have t1: "\<exists>evs1. trace w1 = trace w @ evs1 \<and> length (filter is_Write evs1) = 1"
      by auto
    show ?thesis
    proof (cases x)
      case (Inl e)
      with Suc.prems hello ex have "w' = w1" by simp
      with t1 show ?thesis by auto
    next
      case (Inr fr)
      obtain flag new_bytes where fr: "fr = (flag, new_bytes)" by (cases fr)
      show ?thesis
      proof (cases flag)
        case True
        with Suc.prems hello ex Inr fr have "w' = time_sleep w1" by simp
        with t1 show ?thesis by (auto simp add: time_sleep_def)
      next
        case False
        with Suc.prems hello ex Inr fr
        have "handshake_loop model_str p n new_bytes (time_sleep w1) = (r, w')" by simp
        from Suc.IH [OF this] obtain evs2 where "trace w' = trace (time_sleep w1) @ evs2"
          and "length (filter is_Write evs2) \<le> n" by blast
        with t1 show ?thesis by (auto simp add: time_sleep_def)
      qed
    qed
  qed
qed

lemma handshake_at_most_15_attempts:
  assumes "handshake model_str p w = (r, w')"
  shows "\<exists>evs. trace w' = trace w @ evs \<and> length (filter is_Write evs) \<le> 15"
proof -
  obtain x w1 where l: "handshake_loop model_str p 15 [] w = (x, w1)"
    by (cases "handshake_loop model_str p 15 [] w")
  with assms have "w' = w1"
    by (auto simp add: handshake_def split: sum.splits)
  with handshake_loop_bounded [OF l] show ?thesis by simp
qed


lemma handshake_loop_retry:
  assumes "get_handshake_bytes (model_str @ '' '') = Inr hello"
    and "pipe_write p (dev w) hello = (d1, None)"
    and "pipe_read p d1 read_packet_len = (d2, Inr resp)"
    and "validate_packet resp 1024 = Inr False"
  shows "handshake_loop model_str p (Suc n) databytes w =
     handshake_loop model_str p n resp
       (w\<lparr>dev := d2, trace := trace w @ [Write hello, Read resp, Sleep]\<rparr>)"
  using assms
  by (simp add: exchange_block_with_radio_def serial_write_def serial_read_def time_sleep_def)

text \<open>
  Against a radio whose every answer is the same invalid response, the loop makes all its
  attempts and leaves the last response in \<open>databytes\<close>.
\<close>

lemma handshake_loop_never_valid:
  assumes h: "get_handshake_bytes (model_str @ '' '') = Inr hello"
    and v: "validate_packet resp 1024 = Inr False"
  shows "handshake_loop model_str (ok_pipe resp) n databytes w =
     (Inr (if n = 0 then databytes else resp),
      w\<lparr>trace := trace w @ concat (replicate n [Write hello, Read resp, Sleep])\<rparr>)"
proof (induction n arbitrary: databytes w)
  case 0
  show ?case by simp
next
  case (Suc n)
  have step: "handshake_loop model_str (ok_pipe resp) (Suc n) databytes w =
     handshake_loop model_str (ok_pipe resp) n resp
       (w\<lparr>dev := (), trace := trace w @ [Write hello, Read resp, Sleep]\<rparr>)"
    by (rule handshake_loop_retry [OF h _ _ v]) (simp_all add: ok_pipe_def)
  show ?case
    unfolding step Suc.IH by simp
qed

lemma corrupted_reply_invalid: "validate_packet corrupted_reply 1024 = Inr False"
  unfolding corrupted_reply_def by code_simp

lemma corrupted_reply_class: "handshake_handle_connect_event ''HA1G'' corrupted_reply = Inr Normal"
  unfolding corrupted_reply_def by code_simp

text \<open>
  Claim C7 against a radio that answers every attempt with \<open>corrupted_reply\<close>: no
  response is valid, the handshake makes its 15 attempts, each followed by the delay, and
  then classifies the last response although it failed validation: the result is
  \<open>Normal\<close>, where the claim has the garbled outcome.
\<close>

theorem handshake_accepts_unvalidated_reply:
  "validate_packet corrupted_reply 1024 = Inr False
   \<and> handshake ''HA1G'' (ok_pipe corrupted_reply) world0 =
       (Inr Normal,
        world0\<lparr>trace := concat (replicate 15 [Write hello_HA1G, Read corrupted_reply, Sleep])\<rparr>)"
proof -
  have h: "get_handshake_bytes (''HA1G'' @ '' '') = Inr hello_HA1G"
    using get_handshake_bytes_HA1G by simp
  show ?thesis
    unfolding handshake_def handshake_loop_never_valid [OF h corrupted_reply_invalid]
    by (simp add: corrupted_reply_invalid corrupted_reply_class world0_def)
qed

section \<open>Region transfer: failed exchanges\<close>

lemma exchanges_failure_last:
  assumes "exchanges evs x"
    and "evs = pre @ Write pkt # Read resp # post"
    and "exchange_failed (uint (pkt ! 14)) resp"
  shows "post = [] \<and> x = Some (RadioError ''radio reported failure'')"
  using assms
proof (induction evs x arbitrary: pre rule: exchanges.induct)
  case (nothing x)
  then show ?case by simp
next
  case (no_answer x pkt')
  then show ?case by (cases pre) simp_all
next
  case (failure pkt' resp')
  then show ?case
    by (cases pre) (auto simp add: Cons_eq_append_conv)
next
  case (bad_answer pkt' resp' x)
  then show ?case
    by (cases pre) (auto simp add: Cons_eq_append_conv)
next
  case (answered pkt' resp' evs x c)
  show ?case
  proof (cases pre)
    case Nil
    with answered.prems answered.hyps show ?thesis by simp
  next
    case (Cons a pre1)
    note p1 = this
    show ?thesis
    proof (cases pre1)
      case Nil
      with p1 answered.prems show ?thesis by simp
    next
      case (Cons b pre2)
      note p2 = this
      show ?thesis
      proof (cases pre2)
        case Nil
        with p1 p2 answered.prems show ?thesis by simp
      next
        case (Cons c' pre3)
        with p1 p2 answered.prems have "evs = pre3 @ Write pkt # Read resp # post"
          by simp
        from answered.IH [OF this answered.prems(2)] show ?thesis .
      qed
    qed
  qed
qed

lemma exchanges_append:
  assumes "exchanges evs1 None" and "exchanges evs2 x"
  shows "exchanges (evs1 @ evs2) x"
  using assms
proof (induction evs1 "None :: exn option" rule: exchanges.induct)
  case nothing
  then show ?case by simp
next
  case (answered pkt resp evs c)
  then show ?case by (simp add: exchanges.answered)
qed simp_all

lemma and_255_byte: "0 \<le> t \<Longrightarrow> t < 256 \<Longrightarrow> (t::int) AND 255 = t"
proof -
  assume a: "0 \<le> t" "t < 256"
  have "t AND 255 = take_bit 8 t"
    by (simp add: take_bit_eq_mask mask_eq_exp_minus_1)
  also have "\<dots> = t"
    using a by (simp add: take_bit_int_eq_self)
  finally show ?thesis .
qed

lemma packet_region_byte:
  assumes "get_send_packet_bytes t i c n buf = Inr pkt" and "0 \<le> t" and "t < 256"
  shows "uint (pkt ! 14) = t"
proof -
  from assms(1) have "pkt ! 14 = packet_header t i c n (int (length buf) + 6) ! 14"
    by (auto simp add: get_send_packet_bytes_eq nth_append length_packet_header split: if_splits)
  then have "pkt ! 14 = word_of_int t"
    using assms(2,3) by (simp add: header_nth_14 and_255_byte)
  then show ?thesis
    using assms(2,3) by (simp add: uint_word_of_int take_bit_int_eq_self)
qed

lemma trace_status_add [simp]: "trace (status_add n w) = trace w @ [StatusFn (status_cur w + n)]"
  by (simp add: status_add_def)

lemma write_pages_loop_shape:
  assumes "write_pages_loop p item_Bytes item packet_len packet_count idxs w = (r, w')"
    and "0 \<le> item" and "item < 256"
  shows "\<exists>evs. trace w' = trace w @ evs \<and> exchanges evs (raised r)"
  using assms
proof (induction idxs arbitrary: w)
  case Nil
  then show ?case by (auto intro: exchanges.nothing)
next
  case (Cons i idxs)
  show ?case
  proof (cases "get_send_packet_bytes item i 0 packet_count
             (py_slice item_Bytes (i * packet_len) ((i + 1) * packet_len))")
    case (Inl e)
    with Cons.prems show ?thesis by (auto intro: exchanges.nothing)
  next
    case (Inr pkt)
    note pkt = this
    have b14: "uint (pkt ! 14) = item"
      using packet_region_byte [OF pkt Cons.prems(2,3)] .
    obtain x w1 where ex: "exchange_block_with_radio p pkt read_packet_len w = (x, w1)"
      by (cases "exchange_block_with_radio p pkt read_packet_len w")
    from exchange_block_with_radio_cases [OF ex]
    show ?thesis
    proof
      assume "\<exists>e. x = Inl e \<and> trace w1 = trace w @ [Write pkt]"
      then obtain e where "x = Inl e" and t: "trace w1 = trace w @ [Write pkt]" by blast
      with Cons.prems(1) pkt ex have "r = Inl e" "w' = w1" by simp_all
      then show ?thesis using t by (auto intro: exchanges.no_answer)
    next
      assume "\<exists>resp. x = Inr (validate_packet resp 1024 = Inr True, resp)
             \<and> trace w1 = trace w @ [Write pkt, Read resp]"
      then obtain resp where x: "x = Inr (validate_packet resp 1024 = Inr True, resp)"
        and t: "trace w1 = trace w @ [Write pkt, Read resp]" by blast
      have f: "exchange_failed (uint (pkt ! 14)) resp =
          (\<not> (validate_packet resp 1024 = Inr True) \<or> (14 < length resp \<and> uint (resp ! 14) \<noteq> item))"
        unfolding exchange_failed_def b14 using validate_packet_total [of resp 1024] by auto
      show ?thesis
      proof (cases "exchange_failed (uint (pkt ! 14)) resp")
        case True
        with Cons.prems(1) pkt ex x f have "r = Inl (RadioError ''radio reported failure'')" "w' = w1"
          by simp_all
        then show ?thesis using t True by (auto intro: exchanges.failure)
      next
        case False
        with Cons.prems(1) pkt ex x f
        have "write_pages_loop p item_Bytes item packet_len packet_count idxs
                (status_add (int (length pkt)) w1) = (r, w')"
          by (auto split: if_splits)
        from Cons.IH [OF this Cons.prems(2,3)] obtain evs
          where "trace w' = trace (status_add (int (length pkt)) w1) @ evs"
            and "exchanges evs (raised r)" by blast
        then show ?thesis
          using t False by (auto intro: exchanges.answered)
      qed
    qed
  qed
qed

lemma write_item_current_page_bytes_shape:
  assumes "write_item_current_page_bytes p item_Bytes item w = (r, w')"
    and "0 \<le> item" and "item < 256"
  shows "\<exists>evs. trace w' = trace w @ evs \<and> exchanges evs (raised r)"
proof (cases "item_Bytes = [] \<or> math_ceil_div (int (length item_Bytes)) write_page_len = Inr 0
    \<or> (\<exists>e. math_ceil_div (int (length item_Bytes)) write_page_len = Inl e)")
  case True
  with assms(1) have "w' = w"
    by (auto simp add: write_item_current_page_bytes_def split: if_splits sum.splits)
  then show ?thesis by (auto intro: exchanges.nothing)
next
  case False
  then obtain n where "math_ceil_div (int (length item_Bytes)) write_page_len = Inr n" "n \<noteq> 0"
    "item_Bytes \<noteq> []"
    by (cases "math_ceil_div (int (length item_Bytes)) write_page_len") auto
  with assms(1) have "write_pages_loop p item_Bytes item write_page_len n [0 .. n - 1] w = (r, w')"
    by (simp add: write_item_current_page_bytes_def)
  from write_pages_loop_shape [OF this assms(2,3)] show ?thesis .
qed

lemma region_value_range: "0 \<le> region_value item \<and> region_value item < 256"
  by (cases item) simp_all

lemma write_items_loop_shape:
  assumes "write_items_loop p data_bytes items w = (r, w')"
  shows "\<exists>evs. trace w' = trace w @ evs \<and> exchanges evs (raised r)"
  using assms
proof (induction items arbitrary: w)
  case Nil
  then show ?case by (auto intro: exchanges.nothing)
next
  case (Cons item items)
  show ?case
  proof (cases "item \<in> set [radioHead, radioInfo, radioVer, zoneData]")
    case True
    with Cons.prems have "write_items_loop p data_bytes items w = (r, w')" by simp
    from Cons.IH [OF this] show ?thesis .
  next
    case False
    obtain r1 w1 where one: "write_item_current_page_bytes p (get_write_item_bytes data_bytes item)
                (region_value item) w = (r1, w1)"
      by (cases "write_item_current_page_bytes p (get_write_item_bytes data_bytes item)
                (region_value item) w")
    from write_item_current_page_bytes_shape [OF one] region_value_range [of item]
    obtain evs1 where t1: "trace w1 = trace w @ evs1" and e1: "exchanges evs1 (raised r1)"
      by blast
    show ?thesis
    proof (cases r1)
      case (Inl e)
      with Cons.prems False one have "r = Inl e" "w' = w1" by simp_all
      with t1 e1 Inl show ?thesis by auto
    next
      case (Inr v)
      with Cons.prems False one have "write_items_loop p data_bytes items w1 = (r, w')" by simp
      from Cons.IH [OF this] obtain evs2 where "trace w' = trace w1 @ evs2"
        and "exchanges evs2 (raised r)" by blast
      moreover from e1 Inr have "exchanges evs1 None" by simp
      ultimately show ?thesis
        using t1 by (auto intro: exchanges_append)
    qed
  qed
qed

text \<open>
  Claim C3. In any run of \<open>write_items\<close>, against any radio, an exchange whose response
  fails validation, or has more than 14 bytes and echoes another region in byte 14 than
  the packet sent, is the last thing the upload does: nothing follows it in the trace, no
  later page and no later region is sent, and \<open>write_items\<close> raises
  \<^verbatim>\<open>RadioError("radio reported failure")\<close>.
\<close>

theorem upload_aborts_at_first_failure:
  assumes run: "write_items p data_bytes w = (r, w')"
    and tr: "trace w' = trace w @ pre @ Write pkt # Read resp # post"
    and fail: "validate_packet resp 1024 = Inr False
               \<or> (14 < length resp \<and> uint (resp ! 14) \<noteq> uint (pkt ! 14))"
  shows "r = Inl (RadioError ''radio reported failure'') \<and> post = []"
proof -
  from run have "write_items_loop p data_bytes MemoryRegions_items (w\<lparr>status_cur := 0\<rparr>) = (r, w')"
    by (simp add: write_items_def)
  from write_items_loop_shape [OF this] obtain evs
    where t: "trace w' = trace w @ evs" and e: "exchanges evs (raised r)" by auto
  from t tr have evs: "evs = pre @ Write pkt # Read resp # post" by simp
  from fail have "exchange_failed (uint (pkt ! 14)) resp"
    by (simp add: exchange_failed_def)
  from exchanges_failure_last [OF e evs this] show ?thesis
    by (cases r) simp_all
qed

subsection \<open>Download\<close>

declare read_packets_loop.simps [simp del]

lemma writes_for_simps [simp]:
  "writes_for item []"
  "writes_for item (Write pkt # evs) = (uint (pkt ! 14) = item \<and> writes_for item evs)"
  "writes_for item (Read resp # evs) = writes_for item evs"
  "writes_for item (StatusFn c # evs) = writes_for item evs"
  "writes_for item (Sleep # evs) = writes_for item evs"
  by (simp_all add: writes_for_def)

lemma read_packets_loop_shape:
  assumes "read_packets_loop p item packet_index packet_count item_bytes w = (r, w')"
    and "0 \<le> item" and "item < 256"
  shows "\<exists>evs. trace w' = trace w @ evs \<and> exchanges evs (raised r) \<and> writes_for item evs"
  using assms
proof (induction p item packet_index packet_count item_bytes w rule: read_packets_loop.induct)
  case (1 p item packet_index packet_count item_bytes w)
  note run = "1.prems"(1) [unfolded read_packets_loop.simps [of p item packet_index packet_count item_bytes w]]
  show ?case
  proof (cases "int packet_index < packet_count")
    case False
    with run show ?thesis by (auto intro: exchanges.nothing)
  next
    case True
    note lt = this
    show ?thesis
    proof (cases "to_bytes_2_little (int packet_index)")
      case (Inl e)
      with run lt show ?thesis by (auto intro: exchanges.nothing)
    next
      case (Inr index_bytes)
      note ib = this
      show ?thesis
      proof (cases "get_send_packet_bytes item 0 2 1 index_bytes")
        case (Inl e)
        with run lt ib show ?thesis by (auto intro: exchanges.nothing)
      next
        case (Inr pkt)
        note pkt = this
        have b14: "uint (pkt ! 14) = item"
          using packet_region_byte [OF pkt "1.prems"(2,3)] .
        obtain x w1 where ex: "exchange_block_with_radio p pkt read_packet_len w = (x, w1)"
          by (cases "exchange_block_with_radio p pkt read_packet_len w")
        from exchange_block_with_radio_cases [OF ex]
        show ?thesis
        proof
          assume "\<exists>e. x = Inl e \<and> trace w1 = trace w @ [Write pkt]"
          then obtain e where "x = Inl e" and t: "trace w1 = trace w @ [Write pkt]" by blast
          with run lt ib pkt ex have "r = Inl e" "w' = w1" by simp_all
          then show ?thesis using t b14 by (auto intro: exchanges.no_answer)
        next
          assume "\<exists>resp. x = Inr (validate_packet resp 1024 = Inr True, resp)
                 \<and> trace w1 = trace w @ [Write pkt, Read resp]"
          then obtain resp where x: "x = Inr (validate_packet resp 1024 = Inr True, resp)"
            and t: "trace w1 = trace w @ [Write pkt, Read resp]" by blast
          have f: "exchange_failed (uint (pkt ! 14)) resp =
              (\<not> (validate_packet resp 1024 = Inr True)
               \<or> (14 < length resp \<and> uint (resp ! 14) \<noteq> item))"
            unfolding exchange_failed_def b14 using validate_packet_total [of resp 1024] by auto
          show ?thesis
          proof (cases "exchange_failed (uint (pkt ! 14)) resp")
            case True
            with run lt ib pkt ex x f
            have "r = Inl (RadioError ''radio reported failure'')" "w' = w1"
              by simp_all
            then show ?thesis using t True b14 by (auto intro: exchanges.failure)
          next
            case False
            note ok = this
            show ?thesis
            proof (cases "if packet_index = 0 then struct_unpack_H (py_slice resp 18 20)
                          else Inr packet_count")
              case (Inl e)
              with run lt ib pkt ex x f ok have "r = Inl e" "w' = w1"
                by (auto split: if_splits)
              then show ?thesis using t ok b14 by (auto intro: exchanges.bad_answer)
            next
              case (Inr packet_count')
              with run lt ib pkt ex x f ok
              have rec: "read_packets_loop p item (Suc packet_index) packet_count'
                      (item_bytes @ py_slice resp 20 (- 3))
                      (status_add (int (length resp)) w1) = (r, w')"
                by (auto split: if_splits)
              have nf: "\<not> (\<not> (validate_packet resp 1024 = Inr True)
                   \<or> 14 < length resp \<and> uint (resp ! 14) \<noteq> item)"
                using ok f by simp
              from "1.IH" [OF lt ib pkt ex [symmetric] x refl nf Inr rec "1.prems"(2,3)]
              obtain evs where "trace w' = trace (status_add (int (length resp)) w1) @ evs"
                and "exchanges evs (raised r)" and "writes_for item evs" by blast
              then show ?thesis
                using t ok b14 by (auto intro: exchanges.answered)
            qed
          qed
        qed
      qed
    qed
  qed
qed

lemma region_range_cases:
  obtains s l where "MEMORY_REGIONS_RANGES item = Some (s, l)" "0 \<le> s" "0 < l" "s + l \<le> int memsize"
  by (cases item) (simp_all add: memsize_def)

lemma regions_disjoint:
  assumes "MEMORY_REGIONS_RANGES a = Some (s, l)" and "MEMORY_REGIONS_RANGES b = Some (s', l')"
    and "a \<noteq> b"
  shows "s + l \<le> s' \<or> s' + l' \<le> s"
  using assms by (cases a; cases b) simp_all

lemma py_slice_assign_inside:
  assumes "0 \<le> s" and "0 \<le> k" and "s + k \<le> int (length xs)" and "length ys = nat k"
  shows "py_slice_assign xs s (s + k) ys = take (nat s) xs @ ys @ drop (nat (s + k)) xs"
proof -
  have a: "slice_bound (length xs) s = nat s"
    using assms by (simp add: slice_bound_def min_def) arith
  have b: "slice_bound (length xs) (s + k) = nat (s + k)"
    using assms by (simp add: slice_bound_def min_def) arith
  have "max (nat s) (nat (s + k)) = nat (s + k)"
    using assms by simp
  then show ?thesis
    by (simp add: py_slice_assign_def a b Let_def)
qed

lemma read_item_handle_connect_event_frame:
  assumes len: "length all_bytes = memsize"
    and rg: "MEMORY_REGIONS_RANGES item = Some (s, l)"
  shows "length (read_item_handle_connect_event all_bytes item_bytes item) = memsize"
    and "j < memsize \<Longrightarrow> int j < s \<or> s + l \<le> int j \<Longrightarrow>
         read_item_handle_connect_event all_bytes item_bytes item ! j = all_bytes ! j"
proof -
  obtain s0 l0 where "MEMORY_REGIONS_RANGES item = Some (s0, l0)" "0 \<le> s0" "0 < l0"
      "s0 + l0 \<le> int memsize"
    by (rule region_range_cases)
  with rg have s: "0 \<le> s" and l: "0 < l" and e: "s + l \<le> int memsize" by simp_all
  define k where "k = min (int (length item_bytes)) l"
  define ys where "ys = py_slice_to item_bytes k"
  have k: "0 \<le> k" "k \<le> l" "k \<le> int (length item_bytes)"
    using l by (simp_all add: k_def)
  have ys: "length ys = nat k"
    using k by (simp add: ys_def py_slice_to_def slice_bound_def min_def) arith
  have sk: "s + k \<le> int (length all_bytes)"
    using k e len by simp
  have eq: "read_item_handle_connect_event all_bytes item_bytes item =
      take (nat s) all_bytes @ ys @ drop (nat (s + k)) all_bytes"
    using py_slice_assign_inside [OF s k(1) sk ys]
    by (simp add: read_item_handle_connect_event_def rg Let_def k_def ys_def)
  show "length (read_item_handle_connect_event all_bytes item_bytes item) = memsize"
    unfolding eq using s k sk len ys by (simp add: nat_add_distrib)
  show "read_item_handle_connect_event all_bytes item_bytes item ! j = all_bytes ! j"
    if j: "j < memsize" and out: "int j < s \<or> s + l \<le> int j"
    using out
  proof
    assume "int j < s"
    then have "j < nat s" by simp
    then show ?thesis
      unfolding eq using len j by (simp add: nth_append)
  next
    assume a: "s + l \<le> int j"
    then have ge: "nat (s + k) \<le> j" using k by simp
    have ns: "nat s \<le> length all_bytes" using s e l len by simp
    have lA: "length (take (nat s) all_bytes) = nat s"
      using ns by simp
    have n1: "\<not> j < nat s" and n2: "\<not> j - nat s < nat k"
      using ge s k by (simp_all add: nat_add_distrib)
    have "(take (nat s) all_bytes @ ys @ drop (nat (s + k)) all_bytes) ! j
        = drop (nat (s + k)) all_bytes ! (j - nat s - nat k)"
      by (simp only: nth_append lA ys n1 n2 if_False)
    also have "\<dots> = all_bytes ! (nat (s + k) + (j - nat s - nat k))"
      using sk by simp
    also have "nat (s + k) + (j - nat s - nat k) = j"
      using ge s k by (simp add: nat_add_distrib)
    finally show ?thesis
      unfolding eq .
  qed
qed

lemma first_request_exists:
  "\<exists>req. get_send_packet_bytes item 0 2 1 [0x00, 0x00] = Inr req"
  by (simp add: get_send_packet_bytes_eq)

lemma get_read_current_packet_bytes_shape:
  assumes run: "get_read_current_packet_bytes p item w = (r, w')"
    and range: "0 \<le> item" "item < 256"
  shows "\<exists>req evs1. get_send_packet_bytes item 0 2 1 [0x00, 0x00] = Inr req
           \<and> trace w' = trace w @ Write req # evs1
           \<and> exchanges (Write req # evs1) (raised r)
           \<and> writes_for item (Write req # evs1)"
proof -
  obtain req where req: "get_send_packet_bytes item 0 2 1 [0x00, 0x00] = Inr req"
    using first_request_exists by blast
  have loop: "read_packets_loop p item 0 1 [] w = (r, w')"
    using run by (simp add: get_read_current_packet_bytes_def)
  from read_packets_loop_shape [OF loop range] obtain evs
    where t: "trace w' = trace w @ evs" and e: "exchanges evs (raised r)"
      and wf: "writes_for item evs" by blast
  have tb: "to_bytes_2_little 0 = Inr [0x00, 0x00]"
    by (simp add: to_bytes_2_little_def)
  obtain x w1 where ex: "exchange_block_with_radio p req read_packet_len w = (x, w1)"
    by (cases "exchange_block_with_radio p req read_packet_len w")
  have w1: "\<exists>tl1. trace w1 = trace w @ Write req # tl1"
    using exchange_block_with_radio_cases [OF ex] by auto
  have "\<exists>tl2. trace w' = trace w1 @ tl2"
  proof (cases x)
    case (Inl e)
    with loop tb req ex have "w' = w1"
      by (simp add: read_packets_loop.simps [of p item 0 1 "[]" w])
    then show ?thesis by simp
  next
    case (Inr fr)
    obtain flag resp where fr: "fr = (flag, resp)" by (cases fr)
    show ?thesis
    proof (cases "\<not> flag \<or> (14 < length resp \<and> uint (resp ! 14) \<noteq> item)")
      case True
      with loop tb req ex Inr fr have "w' = w1"
        by (simp add: read_packets_loop.simps [of p item 0 1 "[]" w])
      then show ?thesis by simp
    next
      case False
      note ok = this
      show ?thesis
      proof (cases "struct_unpack_H (py_slice resp 18 20)")
        case (Inl e)
        with loop tb req ex \<open>x = Inr fr\<close> fr ok have "w' = w1"
          by (auto simp add: read_packets_loop.simps [of p item 0 1 "[]" w] split: if_splits)
        then show ?thesis by simp
      next
        case (Inr n)
        with loop tb req ex \<open>x = Inr fr\<close> fr ok
        have "read_packets_loop p item (Suc 0) n ([] @ py_slice resp 20 (- 3))
                (status_add (int (length resp)) w1) = (r, w')"
          by (auto simp add: read_packets_loop.simps [of p item 0 1 "[]" w] split: if_splits)
        from read_packets_loop_shape [OF this range] show ?thesis
          by auto
      qed
    qed
  qed
  with w1 obtain evs1 where "trace w' = trace w @ Write req # evs1" by auto
  with t have "evs = Write req # evs1" by simp
  with req t e wf show ?thesis by blast
qed

lemma same_outside_refl: "same_outside item img img"
  by (simp add: same_outside_def)

lemma read_items_loop_run:
  assumes "read_items_loop p items all_bytes w = (r, w')" and "length all_bytes = memsize"
  shows "\<exists>evs img. r = Inr img \<and> trace w' = trace w @ evs \<and> download_run items all_bytes evs img"
  using assms
proof (induction items arbitrary: all_bytes w)
  case Nil
  then show ?case by (auto intro: download_run.finished)
next
  case (Cons item items)
  obtain r1 w1 where one: "get_read_current_packet_bytes p (region_value item) w = (r1, w1)"
    by (cases "get_read_current_packet_bytes p (region_value item) w")
  from get_read_current_packet_bytes_shape [OF one] region_value_range [of item]
  obtain req evs1 where req: "get_send_packet_bytes (region_value item) 0 2 1 [0x00, 0x00] = Inr req"
    and t1: "trace w1 = trace w @ Write req # evs1"
    and e1: "exchanges (Write req # evs1) (raised r1)"
    and wf: "writes_for (region_value item) (Write req # evs1)"
    by blast
  define img1 where "img1 = (case r1 of Inl e \<Rightarrow> all_bytes
      | Inr item_bytes \<Rightarrow> if item_bytes \<noteq> []
          then read_item_handle_connect_event all_bytes item_bytes item else all_bytes)"
  have rest: "read_items_loop p items img1 w1 = (r, w')"
    using Cons.prems(1) one by (auto simp add: img1_def split: sum.splits)
  obtain s l where rg: "MEMORY_REGIONS_RANGES item = Some (s, l)"
    by (rule region_range_cases)
  have len1: "length img1 = memsize"
    using Cons.prems(2) read_item_handle_connect_event_frame(1) [OF Cons.prems(2) rg]
    by (simp add: img1_def split: sum.splits)
  have so: "same_outside item all_bytes img1"
    using Cons.prems(2) read_item_handle_connect_event_frame [OF Cons.prems(2) rg]
    by (auto simp add: img1_def same_outside_def rg split: sum.splits)
  have un: "raised r1 \<noteq> None \<Longrightarrow> img1 = all_bytes"
    by (cases r1) (simp_all add: img1_def)
  from Cons.IH [OF rest len1] obtain evs2 img
    where "r = Inr img" and t2: "trace w' = trace w1 @ evs2"
      and run2: "download_run items img1 evs2 img" by blast
  moreover have "download_run (item # items) all_bytes ((Write req # evs1) @ evs2) img"
    using req e1 wf un so run2 by (rule download_run.region)
  ultimately show ?case
    using t1 by auto
qed

lemma download_run_length:
  "download_run items img0 evs img \<Longrightarrow> length img = length img0"
  by (induction rule: download_run.induct) (simp_all add: same_outside_def)

lemma download_run_start:
  assumes "download_run items img0 evs img"
  shows "(case items of
            [] \<Rightarrow> evs = []
          | nxt # others \<Rightarrow>
              (\<exists>req post'. get_send_packet_bytes (region_value nxt) 0 2 1 [0x00, 0x00] = Inr req
                  \<and> evs = Write req # post'))"
  using assms by (cases rule: download_run.cases) auto

text \<open>A region not visited any more keeps its slice.\<close>

lemma download_run_keeps_slice:
  assumes "download_run items img0 evs img"
    and "item \<notin> set items"
    and "MEMORY_REGIONS_RANGES item = Some (s, l)"
    and "s \<le> int j" and "int j < s + l" and "j < length img0"
  shows "img ! j = img0 ! j"
  using assms
proof (induction rule: download_run.induct)
  case (finished img)
  show ?case by simp
next
  case (region item' req evs1 x img1 img0 items evs2 img2)
  obtain s' l' where rg': "MEMORY_REGIONS_RANGES item' = Some (s', l')"
    by (rule region_range_cases)
  from region.prems(1) have ne: "item \<noteq> item'" and ni: "item \<notin> set items" by auto
  from regions_disjoint [OF region.prems(2) rg' ne] region.prems(3,4)
  have out: "int j < s' \<or> s' + l' \<le> int j" by auto
  from region.hyps(5) rg' region.prems(5) out
  have a: "img1 ! j = img0 ! j" and l1: "length img1 = length img0"
    by (auto simp add: same_outside_def)
  from region.IH [OF ni region.prems(2,3,4)] l1 region.prems(5)
  have "img2 ! j = img1 ! j" by simp
  with a show ?case by simp
qed

lemma download_run_failure:
  assumes "download_run items img0 evs img"
    and "distinct items"
    and "evs = pre @ Write pkt # Read resp # post"
    and "exchange_failed (uint (pkt ! 14)) resp"
  shows "\<exists>before item after.
           items = before @ item # after
         \<and> uint (pkt ! 14) = region_value item
         \<and> (\<forall>s l j. MEMORY_REGIONS_RANGES item = Some (s, l) \<longrightarrow> s \<le> int j \<longrightarrow>
                int j < s + l \<longrightarrow> j < length img0 \<longrightarrow> img ! j = img0 ! j)
         \<and> (case after of
               [] \<Rightarrow> post = []
             | nxt # others \<Rightarrow>
                 (\<exists>req post'. get_send_packet_bytes (region_value nxt) 0 2 1 [0x00, 0x00] = Inr req
                     \<and> post = Write req # post'))"
  using assms
proof (induction arbitrary: pre rule: download_run.induct)
  case (finished img)
  then show ?case by simp
next
  case (region item req evs1 x img1 img0 items evs2 img2)
  from region.prems(1) have ni: "item \<notin> set items" and di: "distinct items" by simp_all
  have l1: "length img1 = length img0"
    using region.hyps(5) by (simp add: same_outside_def)
  from download_run_start [OF region.hyps(6)]
  have start2: "(case items of
          [] \<Rightarrow> evs2 = []
        | nxt # others \<Rightarrow>
            (\<exists>req post'. get_send_packet_bytes (region_value nxt) 0 2 1 [0x00, 0x00] = Inr req
                \<and> evs2 = Write req # post'))" .
  have nr: "\<And>r' rest. evs2 \<noteq> Read r' # rest"
    using start2 by (cases items) auto
  have later: ?case if e2: "evs2 = us @ Write pkt # Read resp # post" for us
  proof -
    from region.IH [OF di e2 region.prems(3)]
    obtain before item' after where its: "items = before @ item' # after"
      and b: "uint (pkt ! 14) = region_value item'"
      and keep: "\<forall>s l j. MEMORY_REGIONS_RANGES item' = Some (s, l) \<longrightarrow> s \<le> int j \<longrightarrow>
                int j < s + l \<longrightarrow> j < length img1 \<longrightarrow> img2 ! j = img1 ! j"
      and nxt: "(case after of
               [] \<Rightarrow> post = []
             | nxt # others \<Rightarrow>
                 (\<exists>req post'. get_send_packet_bytes (region_value nxt) 0 2 1 [0x00, 0x00] = Inr req
                     \<and> post = Write req # post'))"
      by blast
    from its ni have ne: "item' \<noteq> item" by auto
    have "\<forall>s l j. MEMORY_REGIONS_RANGES item' = Some (s, l) \<longrightarrow> s \<le> int j \<longrightarrow>
                int j < s + l \<longrightarrow> j < length img0 \<longrightarrow> img2 ! j = img0 ! j"
    proof (intro allI impI)
      fix s l j
      assume rg: "MEMORY_REGIONS_RANGES item' = Some (s, l)" and j: "s \<le> int j" "int j < s + l"
        "j < length img0"
      obtain s0 l0 where rg0: "MEMORY_REGIONS_RANGES item = Some (s0, l0)"
        by (rule region_range_cases)
      from regions_disjoint [OF rg rg0 ne] j
      have "int j < s0 \<or> s0 + l0 \<le> int j" by auto
      with region.hyps(5) rg0 j(3) have "img1 ! j = img0 ! j"
        by (auto simp add: same_outside_def)
      moreover from keep rg j l1 have "img2 ! j = img1 ! j" by simp
      ultimately show "img2 ! j = img0 ! j" by simp
    qed
    with its b nxt have "item # items = (item # before) @ item' # after
         \<and> uint (pkt ! 14) = region_value item'
         \<and> (\<forall>s l j. MEMORY_REGIONS_RANGES item' = Some (s, l) \<longrightarrow> s \<le> int j \<longrightarrow>
                int j < s + l \<longrightarrow> j < length img0 \<longrightarrow> img2 ! j = img0 ! j)
         \<and> (case after of
               [] \<Rightarrow> post = []
             | nxt # others \<Rightarrow>
                 (\<exists>req post'. get_send_packet_bytes (region_value nxt) 0 2 1 [0x00, 0x00] = Inr req
                     \<and> post = Write req # post'))"
      by simp
    then show ?thesis by blast
  qed
  from region.prems(2)
  have "(Write req # evs1) @ evs2 = pre @ Write pkt # Read resp # post" .
  then have "\<exists>us. (Write req # evs1 = pre @ us \<and> us @ evs2 = Write pkt # Read resp # post)
      \<or> ((Write req # evs1) @ us = pre \<and> evs2 = us @ Write pkt # Read resp # post)"
    by (simp only: append_eq_append_conv2)
  then consider
      (after) us where "evs2 = us @ Write pkt # Read resp # post"
    | (boundary) "Write req # evs1 = pre @ [Write pkt]" "evs2 = Read resp # post"
    | (here) us where "Write req # evs1 = pre @ Write pkt # Read resp # us" "post = us @ evs2"
  proof -
    assume a: "\<And>us. evs2 = us @ Write pkt # Read resp # post \<Longrightarrow> thesis"
      and b: "Write req # evs1 = pre @ [Write pkt] \<Longrightarrow> evs2 = Read resp # post \<Longrightarrow> thesis"
      and h: "\<And>us. Write req # evs1 = pre @ Write pkt # Read resp # us \<Longrightarrow> post = us @ evs2
                \<Longrightarrow> thesis"
      and ex: "\<exists>us. (Write req # evs1 = pre @ us \<and> us @ evs2 = Write pkt # Read resp # post)
          \<or> ((Write req # evs1) @ us = pre \<and> evs2 = us @ Write pkt # Read resp # post)"
    from ex obtain us where d: "(Write req # evs1 = pre @ us \<and> us @ evs2 = Write pkt # Read resp # post)
          \<or> ((Write req # evs1) @ us = pre \<and> evs2 = us @ Write pkt # Read resp # post)"
      by blast
    show thesis
    proof (cases us)
      case Nil
      with d have "evs2 = [] @ Write pkt # Read resp # post" by auto
      then show ?thesis by (rule a)
    next
      case (Cons u us1)
      note us = this
      from d show ?thesis
      proof
        assume "(Write req # evs1) @ us = pre \<and> evs2 = us @ Write pkt # Read resp # post"
        then show ?thesis using a by blast
      next
        assume c: "Write req # evs1 = pre @ us \<and> us @ evs2 = Write pkt # Read resp # post"
        with us have u: "u = Write pkt" and rest: "us1 @ evs2 = Read resp # post" by simp_all
        show ?thesis
        proof (cases us1)
          case Nil
          with c us u rest show ?thesis by (intro b) simp_all
        next
          case (Cons u2 us2)
          with c us u rest show ?thesis by (intro h [of us2]) simp_all
        qed
      qed
    qed
  qed
  then show ?case
  proof cases
    case after
    then show ?thesis by (rule later)
  next
    case boundary
    with nr [of resp post] show ?thesis by blast
  next
    case here
    from exchanges_failure_last [OF region.hyps(2) here(1) region.prems(3)]
    have us: "us = []" and x: "x = Some (RadioError ''radio reported failure'')" by simp_all
    from region.hyps(4) x have same: "img1 = img0" by simp
    have b: "uint (pkt ! 14) = region_value item"
      using region.hyps(3) here(1) by (simp add: writes_for_def)
    have keep: "\<forall>s l j. MEMORY_REGIONS_RANGES item = Some (s, l) \<longrightarrow> s \<le> int j \<longrightarrow>
              int j < s + l \<longrightarrow> j < length img0 \<longrightarrow> img2 ! j = img0 ! j"
      using download_run_keeps_slice [OF region.hyps(6) ni] same by blast
    from here(2) us have pe: "post = evs2" by simp
    from start2 b keep have "item # items = [] @ item # items
       \<and> uint (pkt ! 14) = region_value item
       \<and> (\<forall>s l j. MEMORY_REGIONS_RANGES item = Some (s, l) \<longrightarrow> s \<le> int j \<longrightarrow>
              int j < s + l \<longrightarrow> j < length img0 \<longrightarrow> img2 ! j = img0 ! j)
       \<and> (case items of
             [] \<Rightarrow> post = []
           | nxt # others \<Rightarrow>
               (\<exists>req post'. get_send_packet_bytes (region_value nxt) 0 2 1 [0x00, 0x00] = Inr req
                   \<and> post = Write req # post'))"
      unfolding pe by simp
    then show ?thesis by blast
  qed
qed

text \<open>Whatever the radio does, \<open>read_items\<close> returns an image of \<open>memsize\<close> bytes.\<close>

lemma read_items_returns_image:
  "\<exists>img. fst (read_items p w) = Inr img \<and> length img = memsize"
proof -
  obtain r w' where run: "read_items p w = (r, w')" by (cases "read_items p w")
  then have "read_items_loop p MemoryRegions_items (replicate memsize 0) (w\<lparr>status_cur := 0\<rparr>) = (r, w')"
    by (simp add: read_items_def)
  from read_items_loop_run [OF this] obtain evs img where "r = Inr img"
    and "download_run MemoryRegions_items (replicate memsize 0) evs img" by auto
  with download_run_length [of MemoryRegions_items "replicate memsize 0" evs img] run
  show ?thesis by simp
qed

lemma zero_slice:
  assumes len: "length (img :: bytes) = memsize"
    and rg: "MEMORY_REGIONS_RANGES item = Some (s, l)"
    and z: "\<forall>j. s \<le> int j \<longrightarrow> int j < s + l \<longrightarrow> img ! j = 0"
  shows "py_slice img s (s + l) = replicate (nat l) 0"
proof -
  obtain s0 l0 where "MEMORY_REGIONS_RANGES item = Some (s0, l0)" "0 \<le> s0" "0 < l0"
      "s0 + l0 \<le> int memsize"
    by (rule region_range_cases)
  with rg have s: "0 \<le> s" and l: "0 < l" and e: "s + l \<le> int memsize" by simp_all
  have eq: "py_slice img s (s + l) = drop (nat s) (take (nat (s + l)) img)"
    using s l by (simp add: py_slice_nonneg)
  have n: "length (drop (nat s) (take (nat (s + l)) img)) = nat l"
    using s l e len by (simp add: nat_add_distrib)
  show ?thesis
    unfolding eq
  proof (intro nth_equalityI)
    show "length (drop (nat s) (take (nat (s + l)) img)) = length (replicate (nat l) (0 :: byte))"
      using n by simp
  next
    fix i
    assume "i < length (drop (nat s) (take (nat (s + l)) img))"
    with n have i: "i < nat l" by simp
    then have "drop (nat s) (take (nat (s + l)) img) ! i = img ! (nat s + i)"
      using s l e len by (simp add: nat_add_distrib)
    also have "\<dots> = 0"
      using z i s l by simp
    finally show "drop (nat s) (take (nat (s + l)) img) ! i = replicate (nat l) 0 ! i"
      using i by simp
  qed
qed

text \<open>
  Claim C2. In any run of \<open>read_items\<close>, against any radio: when an exchange fails (its
  response fails validation, or has more than 14 bytes and echoes another region in byte
  14 than the request), then the request was for a region of the catalogue; \<open>read_items\<close>
  raises nothing and returns an image of exactly \<open>memsize\<close> bytes in which the slice of that
  region is all zero; and the download goes on: the next thing it does is to write the first
  request of the next region of the catalogue, or nothing when the region was the last.
\<close>

theorem download_skips_failed_region:
  assumes run: "read_items p w = (r, w')"
    and tr: "trace w' = trace w @ pre @ Write pkt # Read resp # post"
    and fail: "validate_packet resp 1024 = Inr False
               \<or> (14 < length resp \<and> uint (resp ! 14) \<noteq> uint (pkt ! 14))"
  shows "\<exists>img before item after start len.
           r = Inr img \<and> length img = memsize
         \<and> MemoryRegions_items = before @ item # after
         \<and> uint (pkt ! 14) = region_value item
         \<and> MEMORY_REGIONS_RANGES item = Some (start, len)
         \<and> py_slice img start (start + len) = replicate (nat len) 0
         \<and> (case after of
               [] \<Rightarrow> post = []
             | nxt # others \<Rightarrow>
                 (\<exists>req post'. get_send_packet_bytes (region_value nxt) 0 2 1 [0x00, 0x00] = Inr req
                     \<and> post = Write req # post'))"
proof -
  from run have "read_items_loop p MemoryRegions_items (replicate memsize 0) (w\<lparr>status_cur := 0\<rparr>) = (r, w')"
    by (simp add: read_items_def)
  from read_items_loop_run [OF this] obtain evs img where r: "r = Inr img"
    and t: "trace w' = trace w @ evs"
    and dr: "download_run MemoryRegions_items (replicate memsize 0) evs img" by auto
  have len: "length img = memsize"
    using download_run_length [OF dr] by simp
  from t tr have evs: "evs = pre @ Write pkt # Read resp # post" by simp
  from fail have f: "exchange_failed (uint (pkt ! 14)) resp"
    by (simp add: exchange_failed_def)
  have d: "distinct MemoryRegions_items"
    by (simp add: MemoryRegions_items_def)
  from download_run_failure [OF dr d evs f]
  obtain before item after where its: "MemoryRegions_items = before @ item # after"
    and b: "uint (pkt ! 14) = region_value item"
    and keep: "\<forall>s l j. MEMORY_REGIONS_RANGES item = Some (s, l) \<longrightarrow> s \<le> int j \<longrightarrow>
                int j < s + l \<longrightarrow> j < length (replicate memsize (0 :: byte)) \<longrightarrow>
                img ! j = replicate memsize 0 ! j"
    and nxt: "(case after of
               [] \<Rightarrow> post = []
             | nxt # others \<Rightarrow>
                 (\<exists>req post'. get_send_packet_bytes (region_value nxt) 0 2 1 [0x00, 0x00] = Inr req
                     \<and> post = Write req # post'))"
    by blast
  obtain s l where rg: "MEMORY_REGIONS_RANGES item = Some (s, l)" and e: "s + l \<le> int memsize"
    by (rule region_range_cases)
  have "\<forall>j. s \<le> int j \<longrightarrow> int j < s + l \<longrightarrow> img ! j = 0"
  proof (intro allI impI)
    fix j assume j: "s \<le> int j" "int j < s + l"
    with e have "j < memsize" by simp
    with keep rg j show "img ! j = 0" by simp
  qed
  from zero_slice [OF len rg this] r len its b rg nxt show ?thesis
    by blast
qed

subsection \<open>A radio that never answers\<close>

lemma settings_page_encoded: "get_send_packet_bytes 6 0 0 1 [0x00] = Inr settings_page"
  unfolding settings_page_def by code_simp

lemma head_request_encoded: "get_send_packet_bytes 2 0 2 1 [0x00, 0x00] = Inr head_request"
  unfolding head_request_def by code_simp

lemma one_byte_settings: "get_write_item_bytes (replicate 93 0x00) settingData = [0x00]"
  by code_simp

lemma empty_answer_invalid: "validate_packet [] 1024 = Inr False"
  by (simp add: validate_packet_def)

lemma exchange_ok_pipe:
  "exchange_block_with_radio (ok_pipe resp) pkt n w =
     (case validate_packet resp 1024 of
        Inl e \<Rightarrow> Inl e
      | Inr flag \<Rightarrow> Inr (flag, resp),
      w\<lparr>dev := (), trace := trace w @ [Write pkt, Read resp]\<rparr>)"
  by (simp add: exchange_block_with_radio_def serial_write_def serial_read_def ok_pipe_def
      split: sum.splits)

lemma write_items_no_answer:
  "write_items (ok_pipe []) (replicate 93 0x00) world0 =
     (Inl (RadioError ''radio reported failure''),
      \<lparr>dev = (), trace = [Write settings_page, Read []], status_cur = 0\<rparr>)"
  by (simp add: write_items_def MemoryRegions_items_def one_byte_settings
      write_item_current_page_bytes_def math_ceil_div_def write_page_len_def
      py_slice_def slice_bound_def settings_page_encoded exchange_ok_pipe
      empty_answer_invalid world0_def)

theorem upload_aborts_at_first_failure_witness:
  "write_items (ok_pipe []) (replicate 93 0x00) world0 =
     (Inl (RadioError ''radio reported failure''),
      \<lparr>dev = (), trace = [Write settings_page, Read []], status_cur = 0\<rparr>)
   \<and> validate_packet [] 1024 = Inr False"
proof -
  have tr: "trace \<lparr>dev = (), trace = [Write settings_page, Read []], status_cur = 0\<rparr> =
      trace world0 @ [] @ Write settings_page # Read [] # []"
    by (simp add: world0_def)
  have fail: "validate_packet [] 1024 = Inr False
       \<or> (14 < length ([] :: bytes) \<and> uint (([] :: bytes) ! 14) \<noteq> uint (settings_page ! 14))"
    using empty_answer_invalid by simp
  from upload_aborts_at_first_failure [OF write_items_no_answer tr fail]
  show ?thesis
    using write_items_no_answer empty_answer_invalid by simp
qed

lemma head_region_no_answer:
  "get_read_current_packet_bytes (ok_pipe []) 2 w =
     (Inl (RadioError ''radio reported failure''),
      w\<lparr>dev := (), trace := trace w @ [Write head_request, Read []]\<rparr>)"
  by (simp add: get_read_current_packet_bytes_def read_packets_loop.simps [of _ 2 0 1]
      to_bytes_2_little_def head_request_encoded exchange_ok_pipe empty_answer_invalid)

theorem download_skips_failed_region_witness:
  "\<exists>r w' post img.
      read_items (ok_pipe []) world0 = (r, w')
    \<and> trace w' = trace world0 @ [] @ Write head_request # Read [] # post
    \<and> validate_packet [] 1024 = Inr False
    \<and> r = Inr img \<and> length img = memsize
    \<and> py_slice img 0 14 = replicate 14 0x00"
proof -
  obtain r w' where run: "read_items (ok_pipe []) world0 = (r, w')"
    by (cases "read_items (ok_pipe []) world0")
  define w1 :: "unit world" where
    "w1 = \<lparr>dev = (), trace = [Write head_request, Read []], status_cur = 0\<rparr>"
  from run have "read_items_loop (ok_pipe [])
      [radioInfo, radioVer, settingData, zoneData, channelData, scanData, vfoScanData,
       alarmData, dTMFData] (replicate memsize 0x00) w1 = (r, w')"
    by (simp add: read_items_def MemoryRegions_items_def head_region_no_answer world0_def w1_def)
  from read_items_loop_run [OF this] obtain post where "trace w' = trace w1 @ post"
    by auto
  then have tr: "trace w' = trace world0 @ [] @ Write head_request # Read [] # post"
    by (simp add: w1_def world0_def)
  have fail: "validate_packet [] 1024 = Inr False
       \<or> (14 < length ([] :: bytes) \<and> uint (([] :: bytes) ! 14) \<noteq> uint (head_request ! 14))"
    using empty_answer_invalid by simp
  from download_skips_failed_region [OF run tr fail]
  obtain img before item after start len where r: "r = Inr img" and len: "length img = memsize"
    and item: "uint (head_request ! 14) = region_value item"
    and rg: "MEMORY_REGIONS_RANGES item = Some (start, len)"
    and z: "py_slice img start (start + len) = replicate (nat len) 0"
    by blast
  have "uint (head_request ! 14) = 2"
    by (simp add: head_request_def)
  with item have "item = radioHead"
    by (cases item) simp_all
  with rg z have "py_slice img 0 14 = replicate 14 0x00"
    by simp
  with run tr r len empty_answer_invalid show ?thesis
    by blast
qed

end
